theory Spec2Isabelle
  imports Complex_Main "HOL-Library.Log_Nat"
begin

unbundle bit_operations_syntax

section \<open>Data model of maxdefense.hh\<close>

text \<open>
  The header \<^verbatim>\<open>maxdefense.hh\<close> selects armor items that maximise defense within a
  gold budget, with a dynamic-programming solver and an exhaustive-search solver, and
  filters a vector of armor items beforehand.

  Conventions of the embedding:
  \<^item> class \<^verbatim>\<open>ArmorItem\<close> is a record; \<^verbatim>\<open>cost()\<close> returns a C++ \<^verbatim>\<open>int\<close>. An \<^verbatim>\<open>int\<close> is
    modelled as an \<open>int\<close> between \<open>-2^31\<close> and \<open>INT_MAX\<close>, with the 32-bit
    two's-complement wrap-around written out (\<open>int_wrap\<close>) at every addition and
    subtraction whose operands come from the input. Loop counters stay within the
    bounds of their loops, which are lengths of vectors and values already checked.
  \<^item> a finite \<^verbatim>\<open>double\<close> (defense points, table entries) is modelled as the \<open>real\<close> it
    denotes, and the sum of two doubles is the exact sum rounded to the nearest double,
    ties to even (\<open>double_add\<close>). Infinities and NaN are not modelled: the defense
    points are finite, and sums stay below the largest finite double.
  \<^item> \<^verbatim>\<open>ArmorVector\<close>, a vector of shared pointers, is the list of the items pointed to;
    a loop over all indices of a vector is a recursion over the list.
  \<^item> exceptions, failed assertions and reads outside a vector are values of type
    \<open>error\<close>, returned as \<open>Inl\<close>.
\<close>

record ArmorItem =
  description :: string
  cost :: int
  defense :: real

type_synonym ArmorVector = "ArmorItem list"

datatype error =
  AssertionFailed    \<comment> \<open>\<^verbatim>\<open>assert(n < 64)\<close> fails\<close>
| LengthError        \<comment> \<open>\<^verbatim>\<open>std::vector\<close> constructed with a count above \<^verbatim>\<open>max_size()\<close>\<close>
| OutOfRange         \<comment> \<open>\<^verbatim>\<open>at()\<close> or \<^verbatim>\<open>operator[]\<close> outside the vector\<close>

definition INT_MAX :: int where
  "INT_MAX = 2147483647"

definition int_wrap :: "int \<Rightarrow> int" where
  "int_wrap x = (x + 2147483648) mod 4294967296 - 2147483648"

text \<open>Conversion of an \<^verbatim>\<open>int\<close> to the 64-bit unsigned \<^verbatim>\<open>size_t\<close>.\<close>

definition to_size_t :: "int \<Rightarrow> int" where
  "to_size_t x = x mod 18446744073709551616"

section \<open>Doubles\<close>

text \<open>
  \<open>binary_exponent x\<close> is the integer \<open>e\<close> with \<open>2^e \<le> |x| < 2^(e+1)\<close>, for \<open>x \<noteq> 0\<close>
  (lemma \<open>binary_exponent_bounds\<close>).
\<close>

definition binary_exponent :: "real \<Rightarrow> int" where
  "binary_exponent x =
     (if 1 \<le> \<bar>x\<bar> then bitlen \<lfloor>\<bar>x\<bar>\<rfloor> - 1 else - bitlen (\<lceil>1 / \<bar>x\<bar>\<rceil> - 1))"

text \<open>Rounding to the nearest integer, a tie to the even one.\<close>

definition round_even :: "real \<Rightarrow> int" where
  "round_even q =
     (let f = \<lfloor>q\<rfloor>; r = q - of_int f
      in if r < 1 / 2 then f else if 1 / 2 < r then f + 1 else if even f then f else f + 1)"

text \<open>
  Rounding a real to the nearest binary64 value: a mantissa of 53 bits, the unit in the
  last place no smaller than \<open>2^-1074\<close>.
\<close>

definition round_double :: "real \<Rightarrow> real" where
  "round_double x =
     (if x = 0 then 0
      else let ulp = 2 powi (max (binary_exponent x - 52) (- 1074))
           in of_int (round_even (x / ulp)) * ulp)"

text \<open>The operator \<^verbatim>\<open>+\<close> on two doubles.\<close>

definition double_add :: "real \<Rightarrow> real \<Rightarrow> real" where
  "double_add a b = round_double (a + b)"

text \<open>
  The conversion of a double to \<^verbatim>\<open>int\<close> truncates towards zero. For a value outside the
  range of \<^verbatim>\<open>int\<close> the language defines no result; the conversion instruction of
  x86-64 (\<^verbatim>\<open>cvttsd2si\<close>) then yields \<open>-2^31\<close>, and this is what is modelled.
\<close>

definition double_to_int :: "real \<Rightarrow> int" where
  "double_to_int x =
     (let t = (if 0 \<le> x then \<lfloor>x\<rfloor> else \<lceil>x\<rceil>)
      in if - 2147483648 \<le> t \<and> t \<le> INT_MAX then t else - 2147483648)"

section \<open>sum\_armor\_vector\<close>

text \<open>
  \<^verbatim>\<open>total_cost = total_defense = 0; for (auto& armor : armors) { total_cost += armor->cost();
  total_defense += armor->defense(); }\<close>, the cost accumulated in an \<^verbatim>\<open>int\<close>.
\<close>

fun sum_loop :: "ArmorVector \<Rightarrow> int \<times> real \<Rightarrow> int \<times> real" where
  "sum_loop [] acc = acc"
| "sum_loop (armor # armors) (total_cost, total_defense) =
     sum_loop armors
       (int_wrap (total_cost + cost armor), double_add total_defense (defense armor))"

definition sum_armor_vector :: "ArmorVector \<Rightarrow> int \<times> real" where
  "sum_armor_vector armors = sum_loop armors (0, 0)"

section \<open>filter\_armor\_vector\<close>

text \<open>
  The loop visits \<^verbatim>\<open>source[0]\<close>, \<^verbatim>\<open>source[1]\<close>, ... in order; \<open>FilteredArmor\<close> is the
  vector built so far. In \<^verbatim>\<open>FilteredArmor->size() < total_size\<close> the \<^verbatim>\<open>int\<close> is
  converted to \<^verbatim>\<open>size_t\<close>.
\<close>

fun filter_loop :: "ArmorVector \<Rightarrow> real \<Rightarrow> real \<Rightarrow> int \<Rightarrow> ArmorVector \<Rightarrow> ArmorVector" where
  "filter_loop [] min_defense max_defense total_size FilteredArmor = FilteredArmor"
| "filter_loop (a # source) min_defense max_defense total_size FilteredArmor =
     filter_loop source min_defense max_defense total_size
       (if defense a > 0 \<and> int (length FilteredArmor) < to_size_t total_size then
          (if min_defense < defense a \<and> defense a \<le> max_defense
           then FilteredArmor @ [a] else FilteredArmor)
        else FilteredArmor)"

definition filter_armor_vector :: "ArmorVector \<Rightarrow> real \<Rightarrow> real \<Rightarrow> int \<Rightarrow> ArmorVector" where
  "filter_armor_vector source min_defense max_defense total_size =
     filter_loop source min_defense max_defense total_size []"

section \<open>dynamic\_max\_defense\<close>

definition max_double :: "real \<Rightarrow> real \<Rightarrow> real" where
  "max_double a b = (if a \<ge> b then a else b)"

text \<open>\<^verbatim>\<open>armors.at(i)\<close> is range-checked and throws.\<close>

definition vec_at :: "'a list \<Rightarrow> int \<Rightarrow> error + 'a" where
  "vec_at xs i = (if 0 \<le> i \<and> i < int (length xs) then Inr (xs ! nat i) else Inl OutOfRange)"

text \<open>Reading \<^verbatim>\<open>table[i][j]\<close>; outside the table the read has no defined result.\<close>

definition table_get :: "real list list \<Rightarrow> int \<Rightarrow> int \<Rightarrow> error + real" where
  "table_get table i j =
     (if 0 \<le> i \<and> i < int (length table) \<and> 0 \<le> j \<and> j < int (length (table ! nat i))
      then Inr (table ! nat i ! nat j) else Inl OutOfRange)"

text \<open>Writing \<^verbatim>\<open>table[i][j] = v\<close>; both loops that write keep \<open>i\<close> and \<open>j\<close> inside the table.\<close>

definition table_set :: "real list list \<Rightarrow> int \<Rightarrow> int \<Rightarrow> real \<Rightarrow> real list list" where
  "table_set table i j v = table[nat i := (table ! nat i)[nat j := v]]"

text \<open>The first pair of loops stores \<open>-999999\<close> in every cell past row 0 and column 0.\<close>

function init_row :: "int \<Rightarrow> real list list \<Rightarrow> int \<Rightarrow> int \<Rightarrow> real list list" where
  "init_row total_cost table i j =
     (if j \<le> total_cost then init_row total_cost (table_set table i j (- 999999)) i (j + 1)
      else table)"
  by pat_completeness auto
termination
  by (relation "measure (\<lambda>(total_cost, table, i, j). nat (total_cost + 1 - j))") auto

function init_rows :: "int \<Rightarrow> int \<Rightarrow> real list list \<Rightarrow> int \<Rightarrow> real list list" where
  "init_rows total_size total_cost table i =
     (if i \<le> total_size then init_rows total_size total_cost (init_row total_cost table i 1) (i + 1)
      else table)"
  by pat_completeness auto
termination
  by (relation "measure (\<lambda>(total_size, total_cost, table, i). nat (total_size + 1 - i))") auto

text \<open>The second pair of loops enters the armor values.\<close>

function fill_row :: "ArmorVector \<Rightarrow> int \<Rightarrow> real list list \<Rightarrow> int \<Rightarrow> int \<Rightarrow> error + real list list" where
  "fill_row armors total_cost table i j =
     (if j \<le> total_cost then
        (case vec_at armors (i - 1) of
           Inl e \<Rightarrow> Inl e
         | Inr a \<Rightarrow>
            (if int_wrap (j - cost a) > 0 then
               (case table_get table (i - 1) j of
                  Inl e \<Rightarrow> Inl e
                | Inr value_above \<Rightarrow>
                   (case table_get table (i - 1) (int_wrap (j - cost a)) of
                      Inl e \<Rightarrow> Inl e
                    | Inr value_offset \<Rightarrow>
                        fill_row armors total_cost
                          (table_set table i j
                             (max_double value_above (double_add value_offset (defense a))))
                          i (j + 1)))
             else
               (case table_get table (i - 1) j of
                  Inl e \<Rightarrow> Inl e
                | Inr value_above \<Rightarrow>
                    fill_row armors total_cost (table_set table i j value_above) i (j + 1))))
      else Inr table)"
  by pat_completeness auto
termination
  by (relation "measure (\<lambda>(armors, total_cost, table, i, j). nat (total_cost + 1 - j))") auto

function fill_rows :: "ArmorVector \<Rightarrow> int \<Rightarrow> int \<Rightarrow> real list list \<Rightarrow> int \<Rightarrow> error + real list list" where
  "fill_rows armors total_size total_cost table i =
     (if i \<le> total_size then
        (case fill_row armors total_cost table i 1 of
           Inl e \<Rightarrow> Inl e
         | Inr table' \<Rightarrow> fill_rows armors total_size total_cost table' (i + 1))
      else Inr table)"
  by pat_completeness auto
termination
  by (relation "measure (\<lambda>(armors, total_size, total_cost, table, i). nat (total_size + 1 - i))") auto

text \<open>
  The table as it stands after both pairs of loops. \<^verbatim>\<open>std::vector<double> itemSub(total_cost + 1, 0)\<close>
  takes its count as \<^verbatim>\<open>size_t\<close>: a negative \<^verbatim>\<open>total_cost + 1\<close> becomes a count above
  \<^verbatim>\<open>max_size()\<close> and the constructor throws \<^verbatim>\<open>std::length_error\<close>.
\<close>

definition build_table :: "ArmorVector \<Rightarrow> int \<Rightarrow> error + real list list" where
  "build_table armors total_cost =
     (let total_size = int (length armors) in
      if int_wrap (total_cost + 1) < 0 then Inl LengthError
      else
        let itemSub = replicate (nat (int_wrap (total_cost + 1))) (0::real);
            table = replicate (nat (total_size + 1)) itemSub
        in fill_rows armors total_size total_cost
             (init_rows total_size total_cost table 1) 1)"

text \<open>The loop that collects the chosen subset, from the last row upwards.\<close>

function backtrack :: "ArmorVector \<Rightarrow> real list list \<Rightarrow> int \<Rightarrow> int \<Rightarrow> ArmorVector \<Rightarrow> error + ArmorVector" where
  "backtrack armors table i horz choice =
     (if i > 0 then
        (case table_get table i horz of
           Inl e \<Rightarrow> Inl e
         | Inr cur \<Rightarrow>
            (if cur \<noteq> 0 then
               (case table_get table (i - 1) horz of
                  Inl e \<Rightarrow> Inl e
                | Inr value_above \<Rightarrow>
                   (if cur \<noteq> value_above then
                      (case vec_at armors (i - 1) of
                         Inl e \<Rightarrow> Inl e
                       | Inr a \<Rightarrow>
                           backtrack armors table (i - 1) (int_wrap (horz - cost a)) (choice @ [a]))
                    else backtrack armors table (i - 1) horz choice))
             else backtrack armors table (i - 1) horz choice))
      else Inr choice)"
  by pat_completeness auto
termination
  by (relation "measure (\<lambda>(armors, table, i, horz, choice). nat i)") auto

definition dynamic_max_defense :: "ArmorVector \<Rightarrow> int \<Rightarrow> error + ArmorVector" where
  "dynamic_max_defense armors total_cost =
     (case build_table armors total_cost of
        Inl e \<Rightarrow> Inl e
      | Inr table \<Rightarrow> backtrack armors table (int (length armors)) total_cost [])"

section \<open>exhaustive\_max\_defense\<close>

text \<open>
  The inner loop: \<^verbatim>\<open>for (j = 0; j < n; j++) if (index & (1 << j)) candidate->push_back(armors[j])\<close>,
  walking the vector with the bit position \<open>j\<close>.
\<close>

fun candidate_loop :: "ArmorVector \<Rightarrow> int \<Rightarrow> nat \<Rightarrow> ArmorVector \<Rightarrow> ArmorVector" where
  "candidate_loop [] index j candidate = candidate"
| "candidate_loop (a # armors) index j candidate =
     candidate_loop armors index (Suc j)
       (if index AND push_bit j 1 \<noteq> 0 then candidate @ [a] else candidate)"

definition build_candidate :: "ArmorVector \<Rightarrow> int \<Rightarrow> ArmorVector" where
  "build_candidate armors index = candidate_loop armors index 0 []"

function exhaustive_loop ::
  "ArmorVector \<Rightarrow> real \<Rightarrow> int \<Rightarrow> int \<Rightarrow> ArmorVector \<times> real \<Rightarrow> ArmorVector \<times> real" where
  "exhaustive_loop armors total_cost subsetAmt index (bestset, bestdefense) =
     (if index < subsetAmt then
        (let candidate = build_candidate armors index;
             (budget, cdefense) = sum_armor_vector candidate
         in if bestdefense < cdefense \<and> real_of_int budget \<le> total_cost
            then exhaustive_loop armors total_cost subsetAmt (index + 1) (candidate, cdefense)
            else exhaustive_loop armors total_cost subsetAmt (index + 1) (bestset, bestdefense))
      else (bestset, bestdefense))"
  by pat_completeness auto
termination
  by (relation "measure (\<lambda>(armors, total_cost, subsetAmt, index, best). nat (subsetAmt - index))") auto

text \<open>
  \<^verbatim>\<open>assert(n < 64); int subsetAmt = pow(2, n);\<close> where \<^verbatim>\<open>pow(2, n)\<close> is the double \<open>2 ^ n\<close>,
  converted to \<^verbatim>\<open>int\<close>. The loop over \<open>index\<close> runs only when \<open>subsetAmt\<close> is positive, that
  is for \<open>n < 31\<close>; then \<open>index\<close> and \<^verbatim>\<open>1 << j\<close> stay below \<open>2^30\<close>.
\<close>

definition exhaustive_max_defense :: "ArmorVector \<Rightarrow> real \<Rightarrow> error + ArmorVector" where
  "exhaustive_max_defense armors total_cost =
     (let n = length armors in
      if \<not> n < 64 then Inl AssertionFailed
      else
        let subsetAmt = double_to_int (2 ^ n)
        in Inr (fst (exhaustive_loop armors total_cost subsetAmt 0 ([], 0))))"

section \<open>Notions used to state the properties\<close>

text \<open>The exact (unbounded) sums over a solution.\<close>

definition cost_sum :: "ArmorVector \<Rightarrow> int" where
  "cost_sum armors = sum_list (map cost armors)"

definition defense_sum :: "ArmorVector \<Rightarrow> real" where
  "defense_sum armors = sum_list (map defense armors)"

text \<open>The sub-vector of the items whose bit is set in \<open>m\<close>, in the order of the vector.\<close>

definition subset_of_mask :: "ArmorVector \<Rightarrow> int \<Rightarrow> ArmorVector" where
  "subset_of_mask armors m = nths armors {j. bit m j}"

text \<open>
  The value that the second pair of loops of \<^verbatim>\<open>dynamic_max_defense\<close> stores in
  \<^verbatim>\<open>table[i][j]\<close>, with the test \<^verbatim>\<open>j - cost > 0\<close> of the source.
\<close>

fun table_value :: "ArmorVector \<Rightarrow> nat \<Rightarrow> int \<Rightarrow> real" where
  "table_value armors 0 j = 0"
| "table_value armors (Suc i) j =
     (if j - cost (armors ! i) > 0
      then max_double (table_value armors i j)
             (double_add (table_value armors i (j - cost (armors ! i))) (defense (armors ! i)))
      else table_value armors i j)"

text \<open>The same recurrence with exact sums.\<close>

fun exact_value :: "ArmorVector \<Rightarrow> nat \<Rightarrow> int \<Rightarrow> real" where
  "exact_value armors 0 j = 0"
| "exact_value armors (Suc i) j =
     (if j - cost (armors ! i) > 0
      then max_double (exact_value armors i j)
             (exact_value armors i (j - cost (armors ! i)) + defense (armors ! i))
      else exact_value armors i j)"

text \<open>The sum of the absolute defense values, which bounds every sum the solvers compute.\<close>

definition abs_defense_sum :: "ArmorVector \<Rightarrow> real" where
  "abs_defense_sum armors = sum_list (map (\<lambda>a. \<bar>defense a\<bar>) armors)"

definition table_dims :: "real list list \<Rightarrow> nat \<Rightarrow> nat \<Rightarrow> bool" where
  "table_dims table rows cols \<longleftrightarrow> length table = rows \<and> (\<forall>r < rows. length (table ! r) = cols)"

text \<open>The scenario of the specification, and further concrete inputs.\<close>

definition helmet :: ArmorItem where
  "helmet = \<lparr>description = ''helmet'', cost = 3, defense = 4\<rparr>"

definition shield :: ArmorItem where
  "shield = \<lparr>description = ''shield'', cost = 4, defense = 5\<rparr>"

definition boots :: ArmorItem where
  "boots = \<lparr>description = ''boots'', cost = 2, defense = 3\<rparr>"

definition ring :: ArmorItem where
  "ring = \<lparr>description = ''ring'', cost = 1, defense = 1\<rparr>"

definition cursed_rag :: ArmorItem where
  "cursed_rag = \<lparr>description = ''cursed rag'', cost = 1, defense = - 1\<rparr>"

definition crown :: ArmorItem where
  "crown = \<lparr>description = ''crown'', cost = 1073741824, defense = 1\<rparr>"

definition dragon_plate :: ArmorItem where
  "dragon_plate = \<lparr>description = ''dragon plate'', cost = 2, defense = 10000000000000000\<rparr>"

definition gauntlet :: ArmorItem where
  "gauntlet = \<lparr>description = ''gauntlet'', cost = 2, defense = 3\<rparr>"

definition greaves :: ArmorItem where
  "greaves = \<lparr>description = ''greaves'', cost = 2, defense = 3\<rparr>"

definition titan_plate :: ArmorItem where
  "titan_plate = \<lparr>description = ''titan plate'', cost = 5, defense = 10000000000000008\<rparr>"

declare init_row.simps [simp del] init_rows.simps [simp del] fill_row.simps [simp del]
  fill_rows.simps [simp del] backtrack.simps [simp del] exhaustive_loop.simps [simp del]

section \<open>Properties of filter\_armor\_vector\<close>

lemma to_size_t_nonneg: "0 \<le> to_size_t x"
  by (simp add: to_size_t_def)

lemma to_size_t_id: "0 \<le> x \<Longrightarrow> x \<le> INT_MAX \<Longrightarrow> to_size_t x = x"
  by (simp add: to_size_t_def INT_MAX_def)

lemma to_size_t_negative:
  "x < 0 \<Longrightarrow> - 2147483648 \<le> x \<Longrightarrow> to_size_t x = x + 18446744073709551616"
  unfolding to_size_t_def
  by (smt (verit) mod_add_self2 mod_pos_pos_trivial)

text \<open>One more iteration of the loop, after the loop has run over \<open>source\<close>.\<close>

lemma filter_loop_snoc:
  "filter_loop (source @ [a]) lo hi k acc =
     (if defense a > 0 \<and> int (length (filter_loop source lo hi k acc)) < to_size_t k
         \<and> lo < defense a \<and> defense a \<le> hi
      then filter_loop source lo hi k acc @ [a] else filter_loop source lo hi k acc)"
  by (induction source arbitrary: acc) auto

lemma filter_loop_length:
  "int (length acc) \<le> to_size_t k \<Longrightarrow> int (length (filter_loop source lo hi k acc)) \<le> to_size_t k"
  by (induction source arbitrary: acc) auto

lemma filter_loop_set:
  "x \<in> set (filter_loop source lo hi k acc) \<Longrightarrow>
     x \<in> set acc \<or> (x \<in> set source \<and> 0 < defense x \<and> lo < defense x \<and> defense x \<le> hi)"
proof (induction source arbitrary: acc)
  case Nil
  then show ?case by simp
next
  case (Cons a source)
  let ?acc' = "if defense a > 0 \<and> int (length acc) < to_size_t k then
          (if lo < defense a \<and> defense a \<le> hi then acc @ [a] else acc) else acc"
  from Cons.prems have "x \<in> set (filter_loop source lo hi k ?acc')"
    by simp
  from Cons.IH [OF this] show ?case
    by (auto split: if_splits)
qed

lemma filter_loop_keeps_all:
  "\<forall>x \<in> set ys. 0 < defense x \<and> lo < defense x \<and> defense x \<le> hi \<Longrightarrow>
   int (length acc + length ys) \<le> to_size_t k \<Longrightarrow>
   filter_loop ys lo hi k acc = acc @ ys"
  by (induction ys arbitrary: acc) auto

lemma filter_loop_uncapped:
  "int (length acc + length source) \<le> to_size_t k \<Longrightarrow>
   filter_loop source lo hi k acc =
     acc @ filter (\<lambda>a. 0 < defense a \<and> lo < defense a \<and> defense a \<le> hi) source"
  by (induction source arbitrary: acc) auto

text \<open>
  Claim C5, as the code has it. For a limit \<open>0 \<le> limit\<close> (a C++ \<^verbatim>\<open>int\<close>), the item
  \<open>a\<close> that follows the scanned prefix \<open>source\<close> is included if and only if its defense
  is strictly positive, \<open>lo < defense a \<le> hi\<close>, and fewer than \<open>limit\<close> items are
  already included; the result holds at most \<open>limit\<close> items and every returned item has a
  positive defense in \<open>(lo, hi]\<close>.
\<close>

theorem filter_contract:
  "0 \<le> limit \<Longrightarrow> limit \<le> INT_MAX \<Longrightarrow>
   filter_armor_vector (source @ [a]) lo hi limit =
     (if 0 < defense a \<and> lo < defense a \<and> defense a \<le> hi
         \<and> int (length (filter_armor_vector source lo hi limit)) < limit
      then filter_armor_vector source lo hi limit @ [a]
      else filter_armor_vector source lo hi limit)
   \<and> int (length (filter_armor_vector source lo hi limit)) \<le> limit
   \<and> (\<forall>x \<in> set (filter_armor_vector source lo hi limit).
         0 < defense x \<and> lo < defense x \<and> defense x \<le> hi)"
proof -
  assume limit: "0 \<le> limit" "limit \<le> INT_MAX"
  then have k: "to_size_t limit = limit"
    by (rule to_size_t_id)
  have step: "filter_armor_vector (source @ [a]) lo hi limit =
           (if 0 < defense a \<and> lo < defense a \<and> defense a \<le> hi
               \<and> int (length (filter_armor_vector source lo hi limit)) < limit
            then filter_armor_vector source lo hi limit @ [a]
            else filter_armor_vector source lo hi limit)"
    unfolding filter_armor_vector_def filter_loop_snoc k by auto
  have len: "int (length (filter_armor_vector source lo hi limit)) \<le> limit"
    using filter_loop_length [of "[]" limit source lo hi] limit k
    by (simp add: filter_armor_vector_def)
  have range: "\<forall>x \<in> set (filter_armor_vector source lo hi limit).
      0 < defense x \<and> lo < defense x \<and> defense x \<le> hi"
    using filter_loop_set [of _ source lo hi limit "[]"]
    by (auto simp: filter_armor_vector_def)
  from step len range show ?thesis
    by blast
qed

theorem filter_contract_witness:
  "(0::int) \<le> 2 \<and> 2 \<le> INT_MAX
   \<and> filter_armor_vector ([helmet, cursed_rag, shield] @ [boots]) (- 2) 4 2 = [helmet, boots]
   \<and> filter_armor_vector [helmet, cursed_rag, shield] (- 2) 4 2 = [helmet]
   \<and> filter_armor_vector ([helmet, boots] @ [ring]) (- 2) 4 2 = [helmet, boots]"
  using filter_contract [of 2 "[helmet, cursed_rag, shield]" boots "- 2" 4]
    filter_contract [of 2 "[helmet, boots]" ring "- 2" 4]
  by (simp add: INT_MAX_def filter_armor_vector_def to_size_t_def
      helmet_def cursed_rag_def shield_def boots_def ring_def)

text \<open>
  Claim C5 as stated fails: an item with a non-positive defense inside \<open>(lo, hi]\<close> is
  left out although nothing is included yet and the limit is 10; and with the limit
  \<open>-1\<close> an item is included, so the result holds more than \<open>limit\<close> items.
\<close>

theorem filter_contract_counterexample:
  "filter_armor_vector ([] @ [cursed_rag]) (- 2) 5 10 \<noteq>
     (if - 2 < defense cursed_rag \<and> defense cursed_rag \<le> 5
         \<and> int (length (filter_armor_vector [] (- 2) 5 10)) < 10
      then filter_armor_vector [] (- 2) 5 10 @ [cursed_rag]
      else filter_armor_vector [] (- 2) 5 10)
   \<and> \<not> int (length (filter_armor_vector [ring] 0 5 (- 1))) \<le> - 1"
  by (simp add: filter_armor_vector_def to_size_t_def cursed_rag_def ring_def)

text \<open>
  Claim C6: filtering is idempotent. Applying \<^verbatim>\<open>filter_armor_vector\<close> with the same
  bounds and the same limit to its own result returns that result.
\<close>

theorem filter_idempotent:
  "filter_armor_vector (filter_armor_vector C lo hi k) lo hi k = filter_armor_vector C lo hi k"
proof -
  let ?r = "filter_loop C lo hi k []"
  have len: "int (length ?r) \<le> to_size_t k"
    by (rule filter_loop_length) (simp add: to_size_t_nonneg)
  have "\<forall>x \<in> set ?r. 0 < defense x \<and> lo < defense x \<and> defense x \<le> hi"
    using filter_loop_set [of _ C lo hi k "[]"] by auto
  then have "filter_loop ?r lo hi k [] = [] @ ?r"
    using len by (intro filter_loop_keeps_all) auto
  then show ?thesis
    by (simp add: filter_armor_vector_def)
qed

theorem filter_idempotent_witness:
  "filter_armor_vector (filter_armor_vector [helmet, cursed_rag, shield, boots] 0 4 1) 0 4 1 = [helmet]
   \<and> filter_armor_vector [helmet, cursed_rag, shield, boots] 0 4 1 = [helmet]"
  using filter_idempotent [of "[helmet, cursed_rag, shield, boots]" 0 4 1]
  by (simp add: filter_armor_vector_def to_size_t_def
      helmet_def cursed_rag_def shield_def boots_def)

text \<open>
  Claim C10: with a strictly negative limit (a C++ \<^verbatim>\<open>int\<close>, so at least \<open>-2^31\<close>) the
  comparison \<^verbatim>\<open>FilteredArmor->size() < total_size\<close> is made on \<^verbatim>\<open>size_t\<close> and never
  fails for a vector that fits in memory: the result is every item of the source with a
  strictly positive defense in \<open>(min_defense, max_defense]\<close>, in source order.
\<close>

theorem filter_negative_limit:
  "limit < 0 \<Longrightarrow> - 2147483648 \<le> limit \<Longrightarrow> int (length source) < 2 ^ 63 \<Longrightarrow>
   filter_armor_vector source lo hi limit =
     filter (\<lambda>a. 0 < defense a \<and> lo < defense a \<and> defense a \<le> hi) source"
proof -
  assume limit: "limit < 0" "- 2147483648 \<le> limit" and len: "int (length source) < 2 ^ 63"
  have "to_size_t limit = limit + 18446744073709551616"
    using limit by (simp add: to_size_t_negative)
  then have "int (length ([]::ArmorVector) + length source) \<le> to_size_t limit"
    using limit len by simp
  then show ?thesis
    unfolding filter_armor_vector_def by (simp add: filter_loop_uncapped)
qed

theorem filter_negative_limit_witness:
  "(- 1 :: int) < 0 \<and> - 2147483648 \<le> (- 1 :: int)
   \<and> int (length [helmet, cursed_rag, shield, boots, ring]) < 2 ^ 63
   \<and> filter_armor_vector [helmet, cursed_rag, shield, boots, ring] 1 4 (- 1) = [helmet, boots]"
  using filter_negative_limit [of "- 1" "[helmet, cursed_rag, shield, boots, ring]" 1 4]
  by (simp add: helmet_def cursed_rag_def shield_def boots_def ring_def)

section \<open>The table and the backtracking of dynamic\_max\_defense\<close>

lemma int_wrap_id: "- 2147483648 \<le> x \<Longrightarrow> x \<le> INT_MAX \<Longrightarrow> int_wrap x = x"
  by (simp add: int_wrap_def INT_MAX_def)

lemma max_double_ge1: "a \<le> max_double a b"
  by (simp add: max_double_def)

lemma max_double_cases: "max_double a b = a \<or> max_double a b = b"
  by (simp add: max_double_def)

lemma table_set_dims: "table_dims table R C \<Longrightarrow> table_dims (table_set table i j v) R C"
proof (cases "nat i < length table")
  case True
  assume "table_dims table R C"
  then show ?thesis
    using True by (auto simp: table_dims_def table_set_def nth_list_update)
next
  case False
  assume "table_dims table R C"
  then show ?thesis
    using False by (simp add: table_dims_def table_set_def)
qed

lemma table_set_nth:
  "table_dims table R C \<Longrightarrow> 0 \<le> i \<Longrightarrow> nat i < R \<Longrightarrow> 0 \<le> j \<Longrightarrow> nat j < C \<Longrightarrow> r < R \<Longrightarrow>
   table_set table i j v ! r ! c = (if r = nat i \<and> c = nat j then v else table ! r ! c)"
  by (auto simp: table_dims_def table_set_def nth_list_update)

lemma table_get_in:
  "table_dims table R C \<Longrightarrow> 0 \<le> i \<Longrightarrow> nat i < R \<Longrightarrow> 0 \<le> j \<Longrightarrow> nat j < C \<Longrightarrow>
   table_get table i j = Inr (table ! nat i ! nat j)"
  by (auto simp: table_dims_def table_get_def)

lemma vec_at_in: "0 \<le> i \<Longrightarrow> i < int (length xs) \<Longrightarrow> vec_at xs i = Inr (xs ! nat i)"
  by (simp add: vec_at_def)

lemma init_row_dims:
  "table_dims table R C \<Longrightarrow> table_dims (init_row total_cost table i j) R C"
proof (induction "nat (total_cost + 1 - j)" arbitrary: j table)
  case 0
  then have "\<not> j \<le> total_cost" by simp
  then show ?case using "0.prems" by (simp add: init_row.simps)
next
  case (Suc k)
  then have le: "j \<le> total_cost" by simp
  have k: "k = nat (total_cost + 1 - (j + 1))" using Suc.hyps by simp
  have "table_dims (init_row total_cost (table_set table i j (- 999999)) i (j + 1)) R C"
    using Suc.hyps(1) [OF k] Suc.prems by (simp add: table_set_dims)
  then show ?case
    using le by (subst init_row.simps) simp
qed

lemma init_row_keeps:
  "table_dims table R C \<Longrightarrow> 0 \<le> i \<Longrightarrow> nat i < R \<Longrightarrow> 1 \<le> j \<Longrightarrow> total_cost + 1 \<le> int C \<Longrightarrow>
   r < R \<Longrightarrow> r \<noteq> nat i \<or> c < nat j \<Longrightarrow>
   init_row total_cost table i j ! r ! c = table ! r ! c"
proof (induction "nat (total_cost + 1 - j)" arbitrary: j table)
  case 0
  then have "\<not> j \<le> total_cost" by simp
  then show ?case by (simp add: init_row.simps)
next
  case (Suc k)
  then have le: "j \<le> total_cost" by simp
  let ?t = "table_set table i j (- 999999)"
  have d: "table_dims ?t R C" using Suc.prems by (simp add: table_set_dims)
  have k: "k = nat (total_cost + 1 - (j + 1))" using Suc.hyps by simp
  have c: "r \<noteq> nat i \<or> c < nat (j + 1)" using Suc.prems(7) by auto
  have j1: "1 \<le> j + 1" using Suc.prems(4) by simp
  have "init_row total_cost ?t i (j + 1) ! r ! c = ?t ! r ! c"
    by (rule Suc.hyps(1) [OF k d Suc.prems(2) Suc.prems(3) j1 Suc.prems(5) Suc.prems(6) c])
  moreover have jn: "nat j < C" using le Suc.prems by simp
  have "?t ! r ! c = table ! r ! c"
    using table_set_nth [OF Suc.prems(1) Suc.prems(2) Suc.prems(3) _ jn Suc.prems(6), of "- 999999" c]
      Suc.prems(4) Suc.prems(7) by auto
  moreover have "init_row total_cost table i j = init_row total_cost ?t i (j + 1)"
    using le by (subst init_row.simps) simp
  ultimately show ?case by simp
qed

lemma init_rows_dims:
  "table_dims table R C \<Longrightarrow> table_dims (init_rows total_size total_cost table i) R C"
proof (induction "nat (total_size + 1 - i)" arbitrary: i table)
  case 0
  then have "\<not> i \<le> total_size" by simp
  then show ?case using "0.prems" by (simp add: init_rows.simps)
next
  case (Suc k)
  then have le: "i \<le> total_size" by simp
  have k: "k = nat (total_size + 1 - (i + 1))" using Suc.hyps by simp
  have "table_dims (init_rows total_size total_cost (init_row total_cost table i 1) (i + 1)) R C"
    using Suc.hyps(1) [OF k] Suc.prems by (simp add: init_row_dims)
  then show ?case
    using le by (subst init_rows.simps) simp
qed

lemma init_rows_keeps:
  "table_dims table R C \<Longrightarrow> 1 \<le> i \<Longrightarrow> total_size + 1 \<le> int R \<Longrightarrow> total_cost + 1 \<le> int C \<Longrightarrow>
   r < R \<Longrightarrow> r < nat i \<or> c = 0 \<Longrightarrow>
   init_rows total_size total_cost table i ! r ! c = table ! r ! c"
proof (induction "nat (total_size + 1 - i)" arbitrary: i table)
  case 0
  then have "\<not> i \<le> total_size" by simp
  then show ?case by (simp add: init_rows.simps)
next
  case (Suc k)
  then have le: "i \<le> total_size" by simp
  let ?t = "init_row total_cost table i 1"
  have i: "0 \<le> i" "nat i < R" using le Suc.prems by auto
  have d: "table_dims ?t R C" using Suc.prems(1) by (rule init_row_dims)
  have k: "k = nat (total_size + 1 - (i + 1))" using Suc.hyps by simp
  have c1: "r < nat (i + 1) \<or> c = 0" using Suc.prems(6) by auto
  have c2: "r \<noteq> nat i \<or> c < nat 1" using Suc.prems(6) by auto
  have i1: "1 \<le> i + 1" using Suc.prems(2) by simp
  have "init_rows total_size total_cost ?t (i + 1) ! r ! c = ?t ! r ! c"
    by (rule Suc.hyps(1) [OF k d i1 Suc.prems(3) Suc.prems(4) Suc.prems(5) c1])
  moreover have "?t ! r ! c = table ! r ! c"
    by (rule init_row_keeps [OF Suc.prems(1) i _ Suc.prems(4) Suc.prems(5) c2]) simp
  moreover have "init_rows total_size total_cost table i = init_rows total_size total_cost ?t (i + 1)"
    using le by (subst init_rows.simps) simp
  ultimately show ?case by simp
qed

lemma table_value_col0:
  "\<forall>a \<in> set armors. 0 < cost a \<Longrightarrow> i \<le> length armors \<Longrightarrow> table_value armors i 0 = 0"
proof (induction i)
  case 0
  then show ?case by simp
next
  case (Suc i)
  then have "armors ! i \<in> set armors" by simp
  then have "0 < cost (armors ! i)" using Suc.prems(1) by blast
  then have "\<not> 0 - cost (armors ! i) > 0" by simp
  then have "table_value armors (Suc i) 0 = table_value armors i 0"
    by (simp only: table_value.simps if_False)
  then show ?case using Suc by simp
qed

lemma fill_row_correct:
  assumes dims: "table_dims table (Suc (length armors)) (nat (B + 1))"
    and i: "1 \<le> i" "i \<le> int (length armors)"
    and B: "B < INT_MAX"
    and costs: "\<forall>a \<in> set armors. 0 < cost a \<and> cost a \<le> INT_MAX"
    and prev: "\<forall>c. 0 \<le> c \<and> c \<le> B \<longrightarrow> table ! nat (i - 1) ! nat c = table_value armors (nat (i - 1)) c"
    and j: "1 \<le> j"
  shows "\<exists>table'. fill_row armors B table i j = Inr table'
           \<and> table_dims table' (Suc (length armors)) (nat (B + 1))
           \<and> (\<forall>r c. r \<le> length armors \<longrightarrow> 0 \<le> c \<and> c \<le> B \<longrightarrow>
                 table' ! r ! nat c =
                   (if r = nat i \<and> j \<le> c then table_value armors (nat i) c else table ! r ! nat c))"
  using dims prev j
proof (induction "nat (B + 1 - j)" arbitrary: j table)
  case 0
  then have "\<not> j \<le> B" by simp
  then show ?case using "0.prems" by (simp add: fill_row.simps)
next
  case (Suc k)
  then have le: "j \<le> B" by simp
  let ?R = "Suc (length armors)" and ?C = "nat (B + 1)"
  let ?a = "armors ! nat (i - 1)"
  have a_in: "?a \<in> set armors" using i by simp
  then have ca: "0 < cost ?a" "cost ?a \<le> INT_MAX" using costs by auto
  have at: "vec_at armors (i - 1) = Inr ?a" using i by (simp add: vec_at_in)
  have wrap: "int_wrap (j - cost ?a) = j - cost ?a"
    using ca le B Suc.prems(3) by (intro int_wrap_id) (auto simp: INT_MAX_def)
  have Si: "nat i = Suc (nat (i - 1))" using i by simp
  have get_j: "table_get table (i - 1) j = Inr (table_value armors (nat (i - 1)) j)"
    using table_get_in [OF Suc.prems(1), of "i - 1" j] i le Suc.prems(2,3) by simp
  have get_off: "table_get table (i - 1) (j - cost ?a) = Inr (table_value armors (nat (i - 1)) (j - cost ?a))"
    if "0 < j - cost ?a"
    using table_get_in [OF Suc.prems(1), of "i - 1" "j - cost ?a"] i le Suc.prems(2,3) that ca by simp
  let ?v = "table_value armors (nat i) j"
  let ?t = "table_set table i j ?v"
  have step: "fill_row armors B table i j = fill_row armors B ?t i (j + 1)"
    using le at wrap get_j get_off
    by (subst fill_row.simps) (simp add: Si)
  have d: "table_dims ?t ?R ?C" using Suc.prems(1) by (rule table_set_dims)
  have in_i: "0 \<le> i" "nat i < ?R" using i by auto
  have in_j: "0 \<le> j" "nat j < ?C" using le Suc.prems(3) by auto
  have t_nth: "?t ! r ! c = (if r = nat i \<and> c = nat j then ?v else table ! r ! c)" if "r < ?R" for r c
    by (rule table_set_nth [OF Suc.prems(1) in_i in_j that])
  have prev': "\<forall>c. 0 \<le> c \<and> c \<le> B \<longrightarrow> ?t ! nat (i - 1) ! nat c = table_value armors (nat (i - 1)) c"
    using Suc.prems(2) t_nth [of "nat (i - 1)"] i by auto
  have k: "k = nat (B + 1 - (j + 1))" using Suc.hyps by simp
  have j1: "1 \<le> j + 1" using Suc.prems(3) by simp
  obtain table' where res: "fill_row armors B ?t i (j + 1) = Inr table'"
      "table_dims table' ?R ?C"
      "\<And>r c. r \<le> length armors \<Longrightarrow> 0 \<le> c \<and> c \<le> B \<Longrightarrow>
         table' ! r ! nat c = (if r = nat i \<and> j + 1 \<le> c then table_value armors (nat i) c else ?t ! r ! nat c)"
    using Suc.hyps(1) [OF k d prev' j1] by blast
  have "table' ! r ! nat c = (if r = nat i \<and> j \<le> c then table_value armors (nat i) c else table ! r ! nat c)"
    if "r \<le> length armors" "0 \<le> c \<and> c \<le> B" for r c
  proof -
    have r: "r < ?R" using that(1) by simp
    have "nat c = nat j \<longleftrightarrow> c = j" using that(2) in_j by auto
    then show ?thesis
      using res(3) [OF that] t_nth [OF r, of "nat c"] by auto
  qed
  then show ?case using step res(1,2) by auto
qed

lemma fill_rows_correct:
  assumes dims: "table_dims table (Suc (length armors)) (nat (B + 1))"
    and B: "0 \<le> B" "B < INT_MAX"
    and costs: "\<forall>a \<in> set armors. 0 < cost a \<and> cost a \<le> INT_MAX"
    and i: "1 \<le> i" "i \<le> int (length armors) + 1"
    and done_rows: "\<forall>r c. r < nat i \<longrightarrow> 0 \<le> c \<and> c \<le> B \<longrightarrow> table ! r ! nat c = table_value armors r c"
    and col0: "\<forall>r. r \<le> length armors \<longrightarrow> table ! r ! 0 = 0"
  shows "\<exists>table'. fill_rows armors (int (length armors)) B table i = Inr table'
           \<and> table_dims table' (Suc (length armors)) (nat (B + 1))
           \<and> (\<forall>r c. r \<le> length armors \<longrightarrow> 0 \<le> c \<and> c \<le> B \<longrightarrow>
                 table' ! r ! nat c = table_value armors r c)"
  using dims i done_rows col0
proof (induction "nat (int (length armors) + 1 - i)" arbitrary: i table)
  case 0
  then have "\<not> i \<le> int (length armors)" "nat i = Suc (length armors)" by auto
  then show ?case using "0.prems" by (simp add: fill_rows.simps)
next
  case (Suc k)
  then have le: "i \<le> int (length armors)" by simp
  let ?R = "Suc (length armors)" and ?C = "nat (B + 1)"
  have prev: "\<forall>c. 0 \<le> c \<and> c \<le> B \<longrightarrow> table ! nat (i - 1) ! nat c = table_value armors (nat (i - 1)) c"
    using Suc.prems(4) Suc.prems(2) by auto
  obtain t1 where t1: "fill_row armors B table i 1 = Inr t1" "table_dims t1 ?R ?C"
      "\<And>r c. r \<le> length armors \<Longrightarrow> 0 \<le> c \<and> c \<le> B \<Longrightarrow>
         t1 ! r ! nat c = (if r = nat i \<and> 1 \<le> c then table_value armors (nat i) c else table ! r ! nat c)"
    using fill_row_correct [OF Suc.prems(1) Suc.prems(2) le B(2) costs prev, of 1] by auto
  have step: "fill_rows armors (int (length armors)) B table i = fill_rows armors (int (length armors)) B t1 (i + 1)"
    using le t1(1) by (subst fill_rows.simps) simp
  have pos: "\<forall>a \<in> set armors. 0 < cost a" using costs by auto
  have done': "\<forall>r c. r < nat (i + 1) \<longrightarrow> 0 \<le> c \<and> c \<le> B \<longrightarrow> t1 ! r ! nat c = table_value armors r c"
  proof (intro allI impI)
    fix r c assume r: "r < nat (i + 1)" and c: "0 \<le> c \<and> c \<le> B"
    have rl: "r \<le> length armors" using r le by simp
    show "t1 ! r ! nat c = table_value armors r c"
    proof (cases "r = nat i")
      case True
      show ?thesis
      proof (cases "1 \<le> c")
        case True
        then show ?thesis using t1(3) [OF rl c] \<open>r = nat i\<close> by simp
      next
        case False
        then have "c = 0" using c by simp
        then show ?thesis
          using t1(3) [OF rl c] Suc.prems(5) rl table_value_col0 [OF pos rl] by simp
      qed
    next
      case False
      then have "r < nat i" using r Suc.prems(2) by auto
      then show ?thesis using t1(3) [OF rl c] False Suc.prems(4) c by simp
    qed
  qed
  have col0': "\<forall>r. r \<le> length armors \<longrightarrow> t1 ! r ! 0 = 0"
  proof (intro allI impI)
    fix r assume rl: "r \<le> length armors"
    have "t1 ! r ! nat 0 = table ! r ! nat 0"
      using t1(3) [OF rl, of 0] B by simp
    then show "t1 ! r ! 0 = 0" using Suc.prems(5) rl by simp
  qed
  have k: "k = nat (int (length armors) + 1 - (i + 1))" using Suc.hyps by simp
  have i1: "1 \<le> i + 1" "i + 1 \<le> int (length armors) + 1" using Suc.prems(2) le by auto
  show ?case
    using Suc.hyps(1) [OF k t1(2) i1 done' col0'] step by simp
qed

lemma build_table_correct:
  assumes B: "0 \<le> B" "B < INT_MAX"
    and costs: "\<forall>a \<in> set armors. 0 < cost a \<and> cost a \<le> INT_MAX"
  shows "\<exists>table. build_table armors B = Inr table
           \<and> table_dims table (Suc (length armors)) (nat (B + 1))
           \<and> (\<forall>r c. r \<le> length armors \<longrightarrow> 0 \<le> c \<and> c \<le> B \<longrightarrow>
                 table ! r ! nat c = table_value armors r c)"
proof -
  let ?n = "int (length armors)"
  let ?R = "Suc (length armors)" and ?C = "nat (B + 1)"
  let ?t0 = "replicate (nat (?n + 1)) (replicate ?C (0::real))"
  let ?t1 = "init_rows ?n B ?t0 1"
  have wrap: "int_wrap (B + 1) = B + 1"
    using B by (intro int_wrap_id) (auto simp: INT_MAX_def)
  have R: "nat (?n + 1) = ?R"
    by simp
  have d0: "table_dims ?t0 ?R ?C"
    unfolding table_dims_def R by (simp del: replicate.simps)
  have d1: "table_dims ?t1 ?R ?C"
    using d0 by (rule init_rows_dims)
  have keep: "?t1 ! r ! c = ?t0 ! r ! c" if "r < ?R" "r < nat 1 \<or> c = 0" for r c
    using init_rows_keeps [OF d0 _ _ _ that, of ?n B] B by simp
  have zero: "?t0 ! r ! c = 0" if "r < ?R" "c < ?C" for r c
    using that unfolding R by (simp del: replicate.simps)
  have done_rows: "\<forall>r c. r < nat 1 \<longrightarrow> 0 \<le> c \<and> c \<le> B \<longrightarrow> ?t1 ! r ! nat c = table_value armors r c"
    using keep zero by auto
  have col0: "\<forall>r. r \<le> length armors \<longrightarrow> ?t1 ! r ! 0 = 0"
    using keep [of _ 0] zero [of _ 0] B by auto
  have "build_table armors B = fill_rows armors ?n B ?t1 1"
    using B wrap by (simp add: build_table_def Let_def)
  then show ?thesis
    using fill_rows_correct [OF d1 B costs _ _ done_rows col0] by simp
qed

section \<open>Rounding\<close>

lemma round_even_of_int: "round_even (of_int k) = k"
  by (simp add: round_even_def)

lemma binary_exponent_bounds:
  assumes "x \<noteq> 0"
  shows "2 powi binary_exponent x \<le> \<bar>x\<bar> \<and> \<bar>x\<bar> < 2 powi (binary_exponent x + 1)"
proof (cases "1 \<le> \<bar>x\<bar>")
  case True
  let ?k = "\<lfloor>\<bar>x\<bar>\<rfloor>"
  have k: "0 < ?k" using True by linarith
  have b: "1 \<le> bitlen ?k" using k by (simp add: bitlen_alt_def)
  have e: "binary_exponent x = bitlen ?k - 1"
    using True by (simp add: binary_exponent_def)
  have lo: "(2::int) ^ nat (bitlen ?k - 1) \<le> ?k" and hi: "?k < 2 ^ nat (bitlen ?k)"
    using bitlen_bounds [OF k] by auto
  have "real_of_int (2 ^ nat (bitlen ?k - 1)) \<le> \<bar>x\<bar>"
    using lo by (simp only: le_floor_iff)
  then have 1: "2 powi (bitlen ?k - 1) \<le> \<bar>x\<bar>"
    using b by (simp add: power_int_def)
  have "\<bar>x\<bar> < real_of_int (2 ^ nat (bitlen ?k))"
    using hi by (simp only: floor_less_iff)
  then have 2: "\<bar>x\<bar> < 2 powi (bitlen ?k)"
    using b by (simp add: power_int_def)
  show ?thesis using 1 2 e by simp
next
  case False
  let ?y = "1 / \<bar>x\<bar>"
  let ?c = "\<lceil>?y\<rceil>"
  have x: "0 < \<bar>x\<bar>" "\<bar>x\<bar> < 1" using assms False by auto
  then have y: "1 < ?y" by simp
  then have c: "0 < ?c - 1" by linarith
  let ?b = "bitlen (?c - 1)"
  have b: "1 \<le> ?b" using c by (simp add: bitlen_alt_def)
  have e: "binary_exponent x = - ?b"
    using False by (simp add: binary_exponent_def)
  have lo: "(2::int) ^ nat (?b - 1) \<le> ?c - 1" and hi: "?c - 1 < 2 ^ nat ?b"
    using bitlen_bounds [OF c] by auto
  have "(2::int) ^ nat (?b - 1) < ?c" using lo by simp
  then have "real_of_int (2 ^ nat (?b - 1)) < ?y"
    by (simp only: less_ceiling_iff)
  then have "2 ^ nat (?b - 1) < ?y"
    by simp
  then have "\<bar>x\<bar> * 2 ^ nat (?b - 1) < 1"
    using x(1) by (simp add: field_simps)
  then have "\<bar>x\<bar> < 1 / 2 ^ nat (?b - 1)"
    by (simp add: field_simps)
  moreover have "2 powi (- ?b + 1) = (1::real) / 2 ^ nat (?b - 1)"
    using b by (simp add: power_int_def field_simps)
  ultimately have 2: "\<bar>x\<bar> < 2 powi (- ?b + 1)"
    by simp
  have "?c \<le> 2 ^ nat ?b" using hi by simp
  then have "?y \<le> real_of_int (2 ^ nat ?b)"
    by (simp only: ceiling_le_iff)
  then have "?y \<le> 2 ^ nat ?b"
    by simp
  then have "1 \<le> \<bar>x\<bar> * 2 ^ nat ?b"
    using x(1) by (simp add: field_simps)
  then have "1 / 2 ^ nat ?b \<le> \<bar>x\<bar>"
    by (simp add: field_simps)
  moreover have "2 powi (- ?b) = (1::real) / 2 ^ nat ?b"
    using b by (simp add: power_int_def field_simps)
  ultimately have 1: "2 powi (- ?b) \<le> \<bar>x\<bar>"
    by simp
  show ?thesis using 1 2 e by simp
qed

lemma round_double_of_int:
  assumes "\<bar>k\<bar> \<le> 2 ^ 53"
  shows "round_double (of_int k) = of_int k"
proof (cases "k = 0")
  case True
  then show ?thesis by (simp add: round_double_def)
next
  case False
  let ?x = "real_of_int k"
  have abs: "\<lfloor>\<bar>?x\<bar>\<rfloor> = \<bar>k\<bar>" "1 \<le> \<bar>?x\<bar>"
    using False by (auto simp flip: of_int_abs)
  then have e0: "binary_exponent ?x = bitlen \<bar>k\<bar> - 1"
    by (simp add: binary_exponent_def)
  have pos: "0 < \<bar>k\<bar>" using False by simp
  have b1: "1 \<le> bitlen \<bar>k\<bar>" using pos by (simp add: bitlen_alt_def)
  have "\<bar>k\<bar> < 2 ^ nat 54" using assms by simp
  then have b54: "bitlen \<bar>k\<bar> \<le> 54"
    by (simp add: bitlen_le_iff_power)
  let ?e = "max (bitlen \<bar>k\<bar> - 1 - 52) (- 1074)"
  have e: "?e = bitlen \<bar>k\<bar> - 53" using b1 by simp
  have "\<exists>m. ?x / 2 powi ?e = of_int m"
  proof (cases "bitlen \<bar>k\<bar> \<le> 53")
    case True
    then have "2 powi ?e = (1::real) / 2 ^ nat (53 - bitlen \<bar>k\<bar>)"
      unfolding e by (simp add: power_int_def field_simps)
    then have "?x / 2 powi ?e = of_int (k * 2 ^ nat (53 - bitlen \<bar>k\<bar>))"
      by simp
    then show ?thesis by blast
  next
    case False
    then have b: "bitlen \<bar>k\<bar> = 54" using b54 by simp
    have "(2::int) ^ nat (bitlen \<bar>k\<bar> - 1) \<le> \<bar>k\<bar>"
      using bitlen_bounds [OF pos] by simp
    then have "\<bar>k\<bar> = 2 ^ 53" using assms b by simp
    then have "k = 2 ^ 53 \<or> k = - (2 ^ 53)" by linarith
    moreover have "2 powi ?e = (2::real)"
      unfolding e b by simp
    ultimately have "?x / 2 powi ?e = of_int (2 ^ 52) \<or> ?x / 2 powi ?e = of_int (- (2 ^ 52))"
      by auto
    then show ?thesis by blast
  qed
  then obtain m where m: "?x / 2 powi ?e = of_int m" by blast
  have nz: "(2::real) powi ?e \<noteq> 0" by simp
  have "round_double ?x = of_int (round_even (?x / 2 powi ?e)) * 2 powi ?e"
    using False e0 by (simp add: round_double_def Let_def)
  also have "\<dots> = (?x / 2 powi ?e) * 2 powi ?e"
    unfolding m round_even_of_int ..
  also have "\<dots> = ?x"
    using nz by simp
  finally show ?thesis .
qed

lemma round_double_int:
  assumes "x \<in> \<int>" and "\<bar>x\<bar> \<le> 2 ^ 53"
  shows "round_double x = x"
proof -
  obtain k where k: "x = of_int k" using assms(1) by (auto elim: Ints_cases)
  have "\<bar>real_of_int k\<bar> \<le> real_of_int (2 ^ 53)" using assms(2) k by simp
  then have "\<bar>k\<bar> \<le> 2 ^ 53"
    by (simp only: of_int_le_iff flip: of_int_abs)
  then show ?thesis using round_double_of_int k by simp
qed

lemma double_add_exact:
  "a \<in> \<int> \<Longrightarrow> b \<in> \<int> \<Longrightarrow> \<bar>a + b\<bar> \<le> 2 ^ 53 \<Longrightarrow> double_add a b = a + b"
  by (simp add: double_add_def round_double_int)

lemma double_add_zero: "double_add 0 0 = 0"
  by (simp add: double_add_def round_double_def)


section \<open>Table values\<close>

lemma max_double_mono: "a \<le> a' \<Longrightarrow> b \<le> b' \<Longrightarrow> max_double a b \<le> max_double a' b'"
  by (simp add: max_double_def)

lemma exact_value_mono_i: "exact_value armors i j \<le> exact_value armors (Suc i) j"
  by (simp add: max_double_ge1)

lemma exact_value_nonneg: "0 \<le> exact_value armors i j"
proof (induction i)
  case 0
  show ?case by simp
next
  case (Suc i)
  then show ?case
    using exact_value_mono_i [of armors i j] by linarith
qed

lemma exact_value_mono_j:
  "j1 \<le> j2 \<Longrightarrow> exact_value armors i j1 \<le> exact_value armors i j2"
proof (induction i arbitrary: j1 j2)
  case 0
  show ?case by simp
next
  case (Suc i)
  let ?c = "cost (armors ! i)" and ?v = "defense (armors ! i)"
  have a: "exact_value armors i j1 \<le> exact_value armors i j2"
    using Suc.IH [OF Suc.prems] .
  have b: "exact_value armors i (j1 - ?c) + ?v \<le> exact_value armors i (j2 - ?c) + ?v"
    using Suc.IH [of "j1 - ?c" "j2 - ?c"] Suc.prems by simp
  show ?case
  proof (cases "j1 - ?c > 0")
    case True
    then have "j2 - ?c > 0" using Suc.prems by simp
    then show ?thesis using True a b by (simp add: max_double_mono)
  next
    case False
    have "exact_value armors i j2 \<le> exact_value armors (Suc i) j2"
      by (rule exact_value_mono_i)
    then show ?thesis using False a by simp
  qed
qed

lemma abs_defense_sum_Cons: "abs_defense_sum (a # xs) = \<bar>defense a\<bar> + abs_defense_sum xs"
  by (simp add: abs_defense_sum_def)

lemma abs_defense_sum_nonneg: "0 \<le> abs_defense_sum xs"
  by (induction xs) (auto simp: abs_defense_sum_def)

lemma abs_defense_sum_take_Suc:
  "i < length xs \<Longrightarrow>
   abs_defense_sum (take (Suc i) xs) = abs_defense_sum (take i xs) + \<bar>defense (xs ! i)\<bar>"
  by (simp add: take_Suc_conv_app_nth abs_defense_sum_def)

lemma abs_defense_sum_take: "abs_defense_sum (take i xs) \<le> abs_defense_sum xs"
proof -
  have "abs_defense_sum xs = abs_defense_sum (take i xs) + abs_defense_sum (drop i xs)"
    unfolding abs_defense_sum_def
    by (metis append_take_drop_id map_append sum_list_append)
  then show ?thesis
    using abs_defense_sum_nonneg [of "drop i xs"] by simp
qed

lemma max_double_Ints: "a \<in> \<int> \<Longrightarrow> b \<in> \<int> \<Longrightarrow> max_double a b \<in> \<int>"
  by (simp add: max_double_def)

lemma max_double_abs_le: "\<bar>a\<bar> \<le> m \<Longrightarrow> \<bar>b\<bar> \<le> m \<Longrightarrow> \<bar>max_double a b\<bar> \<le> m"
  by (simp add: max_double_def)

text \<open>
  With integer defense values, every entry of the exact table is an integer bounded by
  the absolute defense sum of the items considered.
\<close>

lemma exact_value_int_bound:
  assumes "\<forall>a \<in> set armors. defense a \<in> \<int>" and "i \<le> length armors"
  shows "exact_value armors i j \<in> \<int> \<and> \<bar>exact_value armors i j\<bar> \<le> abs_defense_sum (take i armors)"
  using assms(2)
proof (induction i arbitrary: j)
  case 0
  show ?case by (simp add: abs_defense_sum_def)
next
  case (Suc i)
  let ?c = "cost (armors ! i)" and ?v = "defense (armors ! i)"
  have i: "i < length armors" "i \<le> length armors" using Suc.prems by auto
  have v: "?v \<in> \<int>" using assms(1) i(1) by simp
  note IH = Suc.IH [OF i(2)]
  have take: "abs_defense_sum (take (Suc i) armors) = abs_defense_sum (take i armors) + \<bar>?v\<bar>"
    using i(1) by (rule abs_defense_sum_take_Suc)
  have up: "exact_value armors i j \<in> \<int>" "\<bar>exact_value armors i j\<bar> \<le> abs_defense_sum (take (Suc i) armors)"
    using IH [of j] take by auto
  have off: "exact_value armors i (j - ?c) + ?v \<in> \<int>"
      "\<bar>exact_value armors i (j - ?c) + ?v\<bar> \<le> abs_defense_sum (take (Suc i) armors)"
    using IH [of "j - ?c"] v take by auto
  show ?case
  proof (cases "j - ?c > 0")
    case True
    then have "exact_value armors (Suc i) j =
        max_double (exact_value armors i j) (exact_value armors i (j - ?c) + ?v)"
      by simp
    then show ?thesis
      using max_double_Ints [OF up(1) off(1)] max_double_abs_le [OF up(2) off(2)] by simp
  next
    case False
    then have "exact_value armors (Suc i) j = exact_value armors i j"
      by simp
    then show ?thesis using up by simp
  qed
qed

text \<open>Then no addition of the table rounds: the table of the code is the exact table.\<close>

lemma table_value_exact:
  assumes ints: "\<forall>a \<in> set armors. defense a \<in> \<int>"
    and bound: "abs_defense_sum armors \<le> 2 ^ 53"
    and i: "i \<le> length armors"
  shows "table_value armors i j = exact_value armors i j"
  using i
proof (induction i arbitrary: j)
  case 0
  show ?case by simp
next
  case (Suc i)
  let ?c = "cost (armors ! i)" and ?v = "defense (armors ! i)"
  have i: "i < length armors" "i \<le> length armors" using Suc.prems by auto
  have v: "?v \<in> \<int>" using ints i(1) by simp
  have off: "exact_value armors i (j - ?c) \<in> \<int>"
    using exact_value_int_bound [OF ints i(2)] by blast
  have "\<bar>exact_value armors i (j - ?c)\<bar> \<le> abs_defense_sum (take i armors)"
    using exact_value_int_bound [OF ints i(2)] by blast
  then have "\<bar>exact_value armors i (j - ?c) + ?v\<bar> \<le> abs_defense_sum (take (Suc i) armors)"
    using abs_defense_sum_take_Suc [OF i(1)] by simp
  also have "\<dots> \<le> 2 ^ 53"
    using abs_defense_sum_take [of "Suc i" armors] bound by simp
  finally have "double_add (exact_value armors i (j - ?c)) ?v = exact_value armors i (j - ?c) + ?v"
    using off v by (intro double_add_exact)
  then show ?case
    using Suc.IH [OF i(2)] by simp
qed


section \<open>Backtracking\<close>

lemma cost_sum_Cons: "cost_sum (a # xs) = cost a + cost_sum xs"
  by (simp add: cost_sum_def)

lemma defense_sum_Cons: "defense_sum (a # xs) = defense a + defense_sum xs"
  by (simp add: defense_sum_def)

text \<open>
  The items chosen on the way from row \<open>i\<close> and column \<open>horz\<close> up to row 0 cost at most
  \<open>horz\<close>; when no addition of the table rounds, their exact defense sum is the entry
  the walk started from.
\<close>

lemma backtrack_correct:
  assumes dims: "table_dims table (Suc (length armors)) (nat (B + 1))"
    and cells: "\<forall>r c. r \<le> length armors \<longrightarrow> 0 \<le> c \<and> c \<le> B \<longrightarrow>
                 table ! r ! nat c = table_value armors r c"
    and B: "B < INT_MAX"
    and costs: "\<forall>a \<in> set armors. 0 < cost a \<and> cost a \<le> INT_MAX"
    and i: "0 \<le> i" "i \<le> int (length armors)"
    and horz: "0 \<le> horz" "horz \<le> B"
  shows "\<exists>picks. backtrack armors table i horz choice = Inr (choice @ picks)
           \<and> set picks \<subseteq> set armors
           \<and> cost_sum picks \<le> horz
           \<and> abs_defense_sum picks \<le> abs_defense_sum (take (nat i) armors)
           \<and> ((\<forall>a \<in> set armors. defense a \<in> \<int>) \<and> abs_defense_sum armors \<le> 2 ^ 53 \<longrightarrow>
                defense_sum picks = exact_value armors (nat i) horz)"
  using i horz
proof (induction "nat i" arbitrary: i horz choice)
  case 0
  then have "\<not> i > 0" "nat i = 0" by auto
  then show ?case
    using "0.prems" by (simp add: backtrack.simps cost_sum_def defense_sum_def abs_defense_sum_def)
next
  case (Suc k)
  let ?H = "(\<forall>a \<in> set armors. defense a \<in> \<int>) \<and> abs_defense_sum armors \<le> 2 ^ 53"
  from Suc have pos: "i > 0" by simp
  have k: "k = nat (i - 1)" using Suc.hyps(2) by simp
  have Si: "nat i = Suc k" using Suc.hyps(2) by simp
  have i1: "0 \<le> i - 1" "i - 1 \<le> int (length armors)" using pos Suc.prems by auto
  let ?a = "armors ! k"
  have kl: "k < length armors" using Suc.hyps(2) Suc.prems(2) by simp
  then have a_in: "?a \<in> set armors" by simp
  then have ca: "0 < cost ?a" "cost ?a \<le> INT_MAX" using costs by auto
  have at: "vec_at armors (i - 1) = Inr ?a"
    using pos Suc.prems(2) k by (simp add: vec_at_in)
  let ?cur = "table_value armors (Suc k) horz" and ?up = "table_value armors k horz"
  have get_cur: "table_get table i horz = Inr ?cur"
    using table_get_in [OF dims, of i horz] cells Suc.prems Si by simp
  have get_up: "table_get table (i - 1) horz = Inr ?up"
    using table_get_in [OF dims, of "i - 1" horz] cells Suc.prems i1 k by simp
  have take: "abs_defense_sum (take (Suc k) armors) = abs_defense_sum (take k armors) + \<bar>defense ?a\<bar>"
    using kl by (rule abs_defense_sum_take_Suc)
  have exact: "table_value armors r c = exact_value armors r c" if ?H "r \<le> length armors" for r c
    using that by (intro table_value_exact) auto
  show ?case
  proof (cases "?cur \<noteq> 0 \<and> ?cur \<noteq> ?up")
    case True
    then have gt: "horz - cost ?a > 0"
      by (auto split: if_splits)
    have wrap: "int_wrap (horz - cost ?a) = horz - cost ?a"
      using gt ca Suc.prems B by (intro int_wrap_id) (auto simp: INT_MAX_def)
    have h: "0 \<le> horz - cost ?a" "horz - cost ?a \<le> B"
      using gt ca Suc.prems by auto
    obtain picks where p: "backtrack armors table (i - 1) (horz - cost ?a) (choice @ [?a]) = Inr ((choice @ [?a]) @ picks)"
        "set picks \<subseteq> set armors" "cost_sum picks \<le> horz - cost ?a"
        "abs_defense_sum picks \<le> abs_defense_sum (take (nat (i - 1)) armors)"
        "?H \<longrightarrow> defense_sum picks = exact_value armors (nat (i - 1)) (horz - cost ?a)"
      using Suc.hyps(1) [OF k i1 h, of "choice @ [?a]"] by blast
    have "backtrack armors table i horz choice = Inr (choice @ (?a # picks))"
      using pos get_cur get_up at True wrap p(1)
      by (subst backtrack.simps) simp
    moreover have "set (?a # picks) \<subseteq> set armors"
      using a_in p(2) by simp
    moreover have "cost_sum (?a # picks) \<le> horz"
      using p(3) by (simp add: cost_sum_Cons)
    moreover have "abs_defense_sum (?a # picks) \<le> abs_defense_sum (take (nat i) armors)"
      using p(4) take k Si by (simp add: abs_defense_sum_Cons)
    moreover have "defense_sum (?a # picks) = exact_value armors (nat i) horz" if H: ?H
    proof -
      let ?ecur = "exact_value armors (Suc k) horz" and ?eup = "exact_value armors k horz"
      have "?cur = ?ecur"
        by (rule exact [OF H]) (use kl in simp)
      moreover have "?up = ?eup"
        by (rule exact [OF H]) (use kl in simp)
      ultimately have "?ecur \<noteq> ?eup" using True by simp
      then have "?ecur = exact_value armors k (horz - cost ?a) + defense ?a"
        using gt max_double_cases [of ?eup "exact_value armors k (horz - cost ?a) + defense ?a"]
        by auto
      then show ?thesis
        using p(5) H k Si by (simp add: defense_sum_Cons)
    qed
    ultimately show ?thesis by blast
  next
    case False
    obtain picks where p: "backtrack armors table (i - 1) horz choice = Inr (choice @ picks)"
        "set picks \<subseteq> set armors" "cost_sum picks \<le> horz"
        "abs_defense_sum picks \<le> abs_defense_sum (take (nat (i - 1)) armors)"
        "?H \<longrightarrow> defense_sum picks = exact_value armors (nat (i - 1)) horz"
      using Suc.hyps(1) [OF k i1 Suc.prems(3,4), of choice] by blast
    have "backtrack armors table i horz choice = Inr (choice @ picks)"
      using pos get_cur get_up False p(1)
      by (subst backtrack.simps) auto
    moreover have "abs_defense_sum picks \<le> abs_defense_sum (take (nat i) armors)"
      using p(4) take abs_ge_zero [of "defense ?a"] unfolding Si k [symmetric] by linarith
    moreover have "defense_sum picks = exact_value armors (nat i) horz" if H: ?H
    proof -
      let ?ecur = "exact_value armors (Suc k) horz" and ?eup = "exact_value armors k horz"
      have "?cur = ?ecur"
        by (rule exact [OF H]) (use kl in simp)
      moreover have "?up = ?eup"
        by (rule exact [OF H]) (use kl in simp)
      ultimately have eq: "?cur = ?ecur" "?up = ?eup"
        by blast+
      have "?eup = ?ecur"
      proof (cases "?ecur = 0")
        case True
        then show ?thesis
          using exact_value_nonneg [of armors k horz] exact_value_mono_i [of armors k horz]
          by linarith
      next
        case F: False
        then show ?thesis using False eq by simp
      qed
      then show ?thesis using p(5) H k Si by simp
    qed
    ultimately show ?thesis using p(2,3) by blast
  qed
qed

text \<open>The summation over a vector whose additions do not round.\<close>

lemma sum_loop_exact:
  "\<forall>a \<in> set xs. defense a \<in> \<int> \<Longrightarrow> d \<in> \<int> \<Longrightarrow> \<bar>d\<bar> + abs_defense_sum xs \<le> 2 ^ 53 \<Longrightarrow>
   snd (sum_loop xs (c, d)) = d + defense_sum xs"
proof (induction xs arbitrary: c d)
  case Nil
  show ?case by (simp add: defense_sum_def)
next
  case (Cons a xs)
  have a: "defense a \<in> \<int>" and xs: "\<forall>a \<in> set xs. defense a \<in> \<int>"
    using Cons.prems(1) by auto
  have nn: "0 \<le> abs_defense_sum xs" by (rule abs_defense_sum_nonneg)
  have le: "\<bar>d + defense a\<bar> + abs_defense_sum xs \<le> 2 ^ 53"
    using Cons.prems(3) by (simp add: abs_defense_sum_Cons)
  then have "\<bar>d + defense a\<bar> \<le> 2 ^ 53" using nn by linarith
  then have add: "double_add d (defense a) = d + defense a"
    using Cons.prems(2) a by (intro double_add_exact)
  have "d + defense a \<in> \<int>" using Cons.prems(2) a by simp
  from Cons.IH [OF xs this le] show ?case
    by (simp add: add defense_sum_Cons)
qed

lemma sum_armor_vector_exact_defense:
  "\<forall>a \<in> set xs. defense a \<in> \<int> \<Longrightarrow> abs_defense_sum xs \<le> 2 ^ 53 \<Longrightarrow>
   snd (sum_armor_vector xs) = defense_sum xs"
  using sum_loop_exact [of xs 0 0] by (simp add: sum_armor_vector_def)

lemma dynamic_max_defense_correct:
  assumes B: "0 \<le> B" "B < INT_MAX"
    and costs: "\<forall>a \<in> set armors. 0 < cost a \<and> cost a \<le> INT_MAX"
  shows "\<exists>choice. dynamic_max_defense armors B = Inr choice
           \<and> set choice \<subseteq> set armors
           \<and> cost_sum choice \<le> B
           \<and> ((\<forall>a \<in> set armors. defense a \<in> \<int>) \<and> abs_defense_sum armors \<le> 2 ^ 53 \<longrightarrow>
                snd (sum_armor_vector choice) = exact_value armors (length armors) B
                \<and> defense_sum choice = exact_value armors (length armors) B)"
proof -
  obtain table where t: "build_table armors B = Inr table"
      "table_dims table (Suc (length armors)) (nat (B + 1))"
      "\<forall>r c. r \<le> length armors \<longrightarrow> 0 \<le> c \<and> c \<le> B \<longrightarrow> table ! r ! nat c = table_value armors r c"
    using build_table_correct [OF B costs] by blast
  let ?H = "(\<forall>a \<in> set armors. defense a \<in> \<int>) \<and> abs_defense_sum armors \<le> 2 ^ 53"
  obtain picks where p: "backtrack armors table (int (length armors)) B [] = Inr ([] @ picks)"
      "set picks \<subseteq> set armors" "cost_sum picks \<le> B"
      "abs_defense_sum picks \<le> abs_defense_sum (take (nat (int (length armors))) armors)"
      "?H \<longrightarrow> defense_sum picks = exact_value armors (nat (int (length armors))) B"
    using backtrack_correct [OF t(2,3) B(2) costs, of "int (length armors)" B "[]"] B by auto
  have ret: "dynamic_max_defense armors B = Inr picks"
    using t(1) p(1) by (simp add: dynamic_max_defense_def)
  have "snd (sum_armor_vector picks) = exact_value armors (length armors) B
      \<and> defense_sum picks = exact_value armors (length armors) B" if H: ?H
  proof -
    have "\<forall>a \<in> set picks. defense a \<in> \<int>" using H p(2) by blast
    moreover have "abs_defense_sum picks \<le> 2 ^ 53" using H p(4) by simp
    ultimately have "snd (sum_armor_vector picks) = defense_sum picks"
      by (rule sum_armor_vector_exact_defense)
    then show ?thesis using p(5) H by simp
  qed
  then show ?thesis using ret p(2,3) by blast
qed

lemma dynamic_max_defense_overflow: "dynamic_max_defense armors INT_MAX = Inl LengthError"
  by (simp add: dynamic_max_defense_def build_table_def INT_MAX_def int_wrap_def)

section \<open>The summation and the enumeration of exhaustive\_max\_defense\<close>

lemma sum_loop_defense_independent:
  "snd (sum_loop xs (c, d)) = snd (sum_loop xs (c', d))"
  by (induction xs arbitrary: c c' d) auto

lemma cost_sum_nonneg: "\<forall>a \<in> set xs. 0 < cost a \<Longrightarrow> 0 \<le> cost_sum xs"
  by (induction xs) (auto simp: cost_sum_def)

lemma cost_sum_pos: "\<forall>a \<in> set xs. 0 < cost a \<Longrightarrow> xs \<noteq> [] \<Longrightarrow> 0 < cost_sum xs"
  using cost_sum_nonneg [of "tl xs"] by (cases xs) (auto simp: cost_sum_def)

lemma sum_loop_cost:
  "\<forall>a \<in> set xs. 0 < cost a \<Longrightarrow> 0 \<le> c \<Longrightarrow> c + cost_sum xs \<le> INT_MAX \<Longrightarrow>
   fst (sum_loop xs (c, d)) = c + cost_sum xs"
proof (induction xs arbitrary: c d)
  case Nil
  then show ?case by (simp add: cost_sum_def)
next
  case (Cons a xs)
  have pos: "\<forall>a \<in> set xs. 0 < cost a" "0 < cost a" using Cons.prems(1) by auto
  have nn: "0 \<le> cost_sum xs" using pos(1) by (rule cost_sum_nonneg)
  have le: "c + cost a + cost_sum xs \<le> INT_MAX"
    using Cons.prems(3) by (simp add: cost_sum_def)
  have wrap: "int_wrap (c + cost a) = c + cost a"
    using Cons.prems(2) pos(2) nn le by (intro int_wrap_id) auto
  have "fst (sum_loop xs (c + cost a, double_add d (defense a))) = c + cost a + cost_sum xs"
    using Cons.IH [OF pos(1) _ le] Cons.prems(2) pos(2) by simp
  then show ?case by (simp add: wrap cost_sum_def)
qed

lemma sum_armor_vector_cost:
  "\<forall>a \<in> set xs. 0 < cost a \<Longrightarrow> cost_sum xs \<le> INT_MAX \<Longrightarrow>
   fst (sum_armor_vector xs) = cost_sum xs"
  using sum_loop_cost [of xs 0 0] by (simp add: sum_armor_vector_def)

lemma candidate_loop_nths:
  "candidate_loop xs m j cand = cand @ nths xs {k. bit m (j + k)}"
proof (induction xs arbitrary: j cand)
  case Nil
  show ?case by simp
next
  case (Cons a xs)
  have "{k. Suc k \<in> {k. bit m (j + k)}} = {k. bit m (Suc j + k)}" by simp
  then show ?case
    by (simp add: Cons.IH nths_Cons bit_iff_and_push_bit_not_eq_0)
qed

lemma build_candidate_nths: "build_candidate armors m = nths armors {j. bit m j}"
  by (simp add: build_candidate_def candidate_loop_nths)

text \<open>The candidate built for \<open>index\<close> holds item \<open>j\<close> if and only if bit \<open>j\<close> of \<open>index\<close> is set.\<close>

lemma build_candidate_subset_of_mask: "build_candidate armors m = subset_of_mask armors m"
  by (simp add: build_candidate_nths subset_of_mask_def)

lemma build_candidate_0: "build_candidate armors 0 = []"
  by (simp add: build_candidate_nths)

lemma build_candidate_subset: "set (build_candidate armors m) \<subseteq> set armors"
  by (simp add: build_candidate_nths set_nths_subset)

lemma cost_sum_nths:
  "\<forall>a \<in> set xs. 0 < cost a \<Longrightarrow> cost_sum (nths xs A) \<le> cost_sum xs"
proof (induction xs arbitrary: A)
  case Nil
  show ?case by simp
next
  case (Cons a xs)
  have "cost_sum (nths xs {k. Suc k \<in> A}) \<le> cost_sum xs"
    using Cons by simp
  then show ?case using Cons.prems by (simp add: nths_Cons cost_sum_def)
qed

lemma candidate_cost_exact:
  assumes "\<forall>a \<in> set armors. 0 < cost a" and "cost_sum armors \<le> INT_MAX"
  shows "fst (sum_armor_vector (build_candidate armors m)) = cost_sum (build_candidate armors m)"
proof (rule sum_armor_vector_cost)
  show "\<forall>a \<in> set (build_candidate armors m). 0 < cost a"
    using assms(1) build_candidate_subset [of armors m] by blast
  show "cost_sum (build_candidate armors m) \<le> INT_MAX"
    using cost_sum_nths [OF assms(1), of "{j. bit m j}"] assms(2)
    by (simp add: build_candidate_nths)
qed

lemma exhaustive_loop_step:
  "index < subsetAmt \<Longrightarrow>
   exhaustive_loop armors total_cost subsetAmt index (bestset, bestdefense) =
     exhaustive_loop armors total_cost subsetAmt (index + 1)
       (if bestdefense < snd (sum_armor_vector (build_candidate armors index))
           \<and> real_of_int (fst (sum_armor_vector (build_candidate armors index))) \<le> total_cost
        then (build_candidate armors index, snd (sum_armor_vector (build_candidate armors index)))
        else (bestset, bestdefense))"
  by (subst exhaustive_loop.simps) (simp add: Let_def split: prod.splits)

lemma exhaustive_loop_replace:
  "index < subsetAmt \<Longrightarrow>
   bestdefense < snd (sum_armor_vector (build_candidate armors index)) \<Longrightarrow>
   real_of_int (fst (sum_armor_vector (build_candidate armors index))) \<le> total_cost \<Longrightarrow>
   exhaustive_loop armors total_cost subsetAmt index (bestset, bestdefense) =
     exhaustive_loop armors total_cost subsetAmt (index + 1)
       (build_candidate armors index, snd (sum_armor_vector (build_candidate armors index)))"
  by (simp add: exhaustive_loop_step)

lemma exhaustive_loop_keep:
  "index < subsetAmt \<Longrightarrow>
   \<not> (bestdefense < snd (sum_armor_vector (build_candidate armors index))
      \<and> real_of_int (fst (sum_armor_vector (build_candidate armors index))) \<le> total_cost) \<Longrightarrow>
   exhaustive_loop armors total_cost subsetAmt index (bestset, bestdefense) =
     exhaustive_loop armors total_cost subsetAmt (index + 1) (bestset, bestdefense)"
  by (subst exhaustive_loop_step, assumption, subst if_not_P, assumption, rule refl)

lemma exhaustive_loop_stop:
  "\<not> index < subsetAmt \<Longrightarrow>
   exhaustive_loop armors total_cost subsetAmt index best = best"
  by (cases best) (simp add: exhaustive_loop.simps)

text \<open>The best defense kept by the loop is the total defense of the best set, as summed by the code.\<close>

lemma exhaustive_loop_defense:
  "bestdefense = snd (sum_armor_vector bestset) \<Longrightarrow>
   snd (exhaustive_loop armors tc N k (bestset, bestdefense)) =
     snd (sum_armor_vector (fst (exhaustive_loop armors tc N k (bestset, bestdefense))))"
proof (induction "nat (N - k)" arbitrary: k bestset bestdefense)
  case 0
  then have "\<not> k < N" by simp
  then show ?case using "0.prems" by (simp add: exhaustive_loop_stop)
next
  case (Suc n)
  then have lt: "k < N" by simp
  have n: "n = nat (N - (k + 1))" using Suc.hyps(2) by simp
  show ?case
    unfolding exhaustive_loop_step [OF lt]
    using Suc.hyps(1) [OF n] Suc.prems
    by simp
qed

lemma exhaustive_loop_mono:
  "tc1 \<le> tc2 \<Longrightarrow> bd1 \<le> bd2 \<Longrightarrow>
   snd (exhaustive_loop armors tc1 N k (bs1, bd1)) \<le> snd (exhaustive_loop armors tc2 N k (bs2, bd2))"
proof (induction "nat (N - k)" arbitrary: k bs1 bd1 bs2 bd2)
  case 0
  then have "\<not> k < N" by simp
  then show ?case using "0.prems" by (simp add: exhaustive_loop_stop)
next
  case (Suc n)
  then have lt: "k < N" by simp
  have n: "n = nat (N - (k + 1))" using Suc.hyps(2) by simp
  let ?c = "real_of_int (fst (sum_armor_vector (build_candidate armors k)))"
  let ?d = "snd (sum_armor_vector (build_candidate armors k))"
  let ?cand = "build_candidate armors k"
  note IH = Suc.hyps(1) [OF n Suc.prems(1)]
  show ?case
  proof (cases "bd1 < ?d \<and> ?c \<le> tc1")
    case True
    then have r1: "bd1 < ?d" "?c \<le> tc1" and c2: "?c \<le> tc2" using Suc.prems(1) by auto
    show ?thesis
    proof (cases "bd2 < ?d")
      case True
      show ?thesis
        unfolding exhaustive_loop_replace [OF lt r1] exhaustive_loop_replace [OF lt True c2]
        by (rule IH) simp
    next
      case False
      then have le: "?d \<le> bd2" and keep: "\<not> (bd2 < ?d \<and> ?c \<le> tc2)" by auto
      show ?thesis
        unfolding exhaustive_loop_replace [OF lt r1] exhaustive_loop_keep [OF lt keep]
        by (rule IH) (rule le)
    qed
  next
    case False
    show ?thesis
    proof (cases "bd2 < ?d \<and> ?c \<le> tc2")
      case True
      then have r2: "bd2 < ?d" "?c \<le> tc2" by auto
      have le: "bd1 \<le> ?d" using r2(1) Suc.prems(2) by simp
      show ?thesis
        unfolding exhaustive_loop_keep [OF lt False] exhaustive_loop_replace [OF lt r2]
        by (rule IH) (rule le)
    next
      case F2: False
      show ?thesis
        unfolding exhaustive_loop_keep [OF lt False] exhaustive_loop_keep [OF lt F2]
        by (rule IH) (rule Suc.prems(2))
    qed
  qed
qed

lemma exhaustive_loop_best:
  fixes armors :: ArmorVector and tc :: real
  defines "cand \<equiv> build_candidate armors"
  defines "feas \<equiv> \<lambda>m. real_of_int (fst (sum_armor_vector (cand m))) \<le> tc"
  defines "d \<equiv> \<lambda>m. snd (sum_armor_vector (cand m))"
  assumes k: "0 \<le> k" "k \<le> N"
    and b: "0 \<le> b" "b = 0 \<or> (b < k \<and> feas b)"
    and upto: "\<forall>m. 0 \<le> m \<and> m < k \<and> feas m \<longrightarrow> d m \<le> d b"
    and first: "\<forall>m. 0 \<le> m \<and> m < b \<and> feas m \<longrightarrow> d m < d b"
  shows "\<exists>b'. exhaustive_loop armors tc N k (cand b, d b) = (cand b', d b')
           \<and> 0 \<le> b' \<and> (b' = 0 \<or> (b' < N \<and> feas b'))
           \<and> (\<forall>m. 0 \<le> m \<and> m < N \<and> feas m \<longrightarrow> d m \<le> d b')
           \<and> (\<forall>m. 0 \<le> m \<and> m < b' \<and> feas m \<longrightarrow> d m < d b')"
  using k b upto first
proof (induction "nat (N - k)" arbitrary: k b)
  case 0
  then have stop: "\<not> k < N" and "k = N" by auto
  show ?case
    unfolding exhaustive_loop_stop [OF stop]
    using "0.prems" \<open>k = N\<close> by blast
next
  case (Suc n)
  then have lt: "k < N" by simp
  have n: "n = nat (N - (k + 1))" using Suc.hyps(2) by simp
  have k1: "0 \<le> k + 1" "k + 1 \<le> N" using Suc.prems(1) lt by auto
  show ?case
  proof (cases "d b < d k \<and> feas k")
    case True
    then have "d b < snd (sum_armor_vector (build_candidate armors k))"
        "real_of_int (fst (sum_armor_vector (build_candidate armors k))) \<le> tc"
      by (simp_all add: feas_def d_def cand_def)
    then have step: "exhaustive_loop armors tc N k (cand b, d b) = exhaustive_loop armors tc N (k + 1) (cand k, d k)"
      using exhaustive_loop_replace [OF lt, of "d b" armors tc "cand b"]
      by (simp add: cand_def d_def)
    have b': "k = 0 \<or> (k < k + 1 \<and> feas k)" using True by simp
    have upto': "\<forall>m. 0 \<le> m \<and> m < k + 1 \<and> feas m \<longrightarrow> d m \<le> d k"
    proof (intro allI impI)
      fix m assume m: "0 \<le> m \<and> m < k + 1 \<and> feas m"
      show "d m \<le> d k"
      proof (cases "m = k")
        case True
        then show ?thesis by simp
      next
        case False
        then have "d m \<le> d b" using m Suc.prems(5) by simp
        then show ?thesis using True by simp
      qed
    qed
    have first': "\<forall>m. 0 \<le> m \<and> m < k \<and> feas m \<longrightarrow> d m < d k"
    proof (intro allI impI)
      fix m assume m: "0 \<le> m \<and> m < k \<and> feas m"
      then have "d m \<le> d b" using Suc.prems(5) by simp
      then show "d m < d k" using True by simp
    qed
    show ?thesis
      unfolding step
      by (rule Suc.hyps(1) [OF n k1 Suc.prems(1) b' upto' first'])
  next
    case False
    then have "\<not> (d b < snd (sum_armor_vector (build_candidate armors k))
        \<and> real_of_int (fst (sum_armor_vector (build_candidate armors k))) \<le> tc)"
      by (simp add: feas_def d_def cand_def)
    then have step: "exhaustive_loop armors tc N k (cand b, d b) = exhaustive_loop armors tc N (k + 1) (cand b, d b)"
      by (rule exhaustive_loop_keep [OF lt])
    have b': "b = 0 \<or> (b < k + 1 \<and> feas b)" using Suc.prems(4) by auto
    have upto': "\<forall>m. 0 \<le> m \<and> m < k + 1 \<and> feas m \<longrightarrow> d m \<le> d b"
    proof (intro allI impI)
      fix m assume m: "0 \<le> m \<and> m < k + 1 \<and> feas m"
      show "d m \<le> d b"
      proof (cases "m = k")
        case True
        then show ?thesis using m False by auto
      next
        case False
        then show ?thesis using m Suc.prems(5) by simp
      qed
    qed
    show ?thesis
      unfolding step
      by (rule Suc.hyps(1) [OF n k1 Suc.prems(3) b' upto' Suc.prems(6)])
  qed
qed

section \<open>The number of subsets\<close>

lemma double_to_int_small: "n < 31 \<Longrightarrow> double_to_int (2 ^ n) = 2 ^ n"
proof -
  assume n: "n < 31"
  have "(2::int) ^ n \<le> 2 ^ 30"
    using n by (intro power_increasing) auto
  moreover have "- 2147483648 \<le> (2::int) ^ n"
    by (rule order_trans [of _ 0]) simp_all
  moreover have "\<lfloor>(2::real) ^ n\<rfloor> = 2 ^ n"
    by (metis floor_of_int of_int_numeral of_int_power)
  ultimately show ?thesis
    by (simp add: double_to_int_def INT_MAX_def Let_def)
qed

lemma double_to_int_large: "31 \<le> n \<Longrightarrow> double_to_int (2 ^ n) = - 2147483648"
proof -
  assume n: "31 \<le> n"
  have "(2::int) ^ 31 \<le> 2 ^ n"
    using n by (intro power_increasing) auto
  moreover have "\<lfloor>(2::real) ^ n\<rfloor> = 2 ^ n"
    by (metis floor_of_int of_int_numeral of_int_power)
  ultimately show ?thesis
    by (simp add: double_to_int_def INT_MAX_def Let_def)
qed

text \<open>With 31 to 63 items the loop over the subsets does not run.\<close>

lemma exhaustive_max_defense_large:
  "31 \<le> length armors \<Longrightarrow> length armors < 64 \<Longrightarrow> exhaustive_max_defense armors budget = Inr []"
  by (simp add: exhaustive_max_defense_def double_to_int_large exhaustive_loop_stop)

lemma exhaustive_max_defense_run:
  "length armors < 64 \<Longrightarrow>
   exhaustive_max_defense armors budget =
     Inr (fst (exhaustive_loop armors budget (double_to_int (2 ^ length armors)) 0 ([], 0)))"
  by (simp add: exhaustive_max_defense_def)

lemma exhaustive_returns:
  assumes "exhaustive_max_defense armors budget = Inr s"
  shows "length armors < 64"
    and "s = fst (exhaustive_loop armors budget (double_to_int (2 ^ length armors)) 0 ([], 0))"
  using assms by (simp_all add: exhaustive_max_defense_def Let_def split: if_splits)

lemma subset_of_mask_0: "subset_of_mask armors 0 = []"
  using build_candidate_0 [of armors] by (simp add: build_candidate_subset_of_mask)

text \<open>
  With fewer than 31 items: the solver returns the subset of the lowest mask among the
  feasible subsets of maximum total defense, cost and defense as the code sums them.
\<close>

lemma exhaustive_max_defense_correct:
  assumes n: "length armors < 31"
  shows "\<exists>m. 0 \<le> m \<and> m < 2 ^ length armors
           \<and> exhaustive_max_defense armors budget = Inr (subset_of_mask armors m)
           \<and> (m = 0 \<or> real_of_int (fst (sum_armor_vector (subset_of_mask armors m))) \<le> budget)
           \<and> (\<forall>m'. 0 \<le> m' \<and> m' < 2 ^ length armors
                    \<and> real_of_int (fst (sum_armor_vector (subset_of_mask armors m'))) \<le> budget \<longrightarrow>
                  snd (sum_armor_vector (subset_of_mask armors m'))
                    \<le> snd (sum_armor_vector (subset_of_mask armors m)))
           \<and> (\<forall>m'. 0 \<le> m' \<and> m' < m
                    \<and> real_of_int (fst (sum_armor_vector (subset_of_mask armors m'))) \<le> budget \<longrightarrow>
                  snd (sum_armor_vector (subset_of_mask armors m'))
                    < snd (sum_armor_vector (subset_of_mask armors m)))"
proof -
  let ?N = "(2::int) ^ length armors"
  let ?d = "\<lambda>m. snd (sum_armor_vector (build_candidate armors m))"
  let ?c = "\<lambda>m. real_of_int (fst (sum_armor_vector (build_candidate armors m)))"
  have init: "([], 0) = (build_candidate armors 0, ?d 0)"
    by (simp add: build_candidate_0 sum_armor_vector_def)
  have run: "exhaustive_max_defense armors budget =
      Inr (fst (exhaustive_loop armors budget ?N 0 (build_candidate armors 0, ?d 0)))"
    using n unfolding init [symmetric]
    by (simp add: exhaustive_max_defense_run double_to_int_small)
  obtain b where b: "exhaustive_loop armors budget ?N 0 (build_candidate armors 0, ?d 0) =
        (build_candidate armors b, ?d b)"
      "0 \<le> b" "b = 0 \<or> (b < ?N \<and> ?c b \<le> budget)"
      "\<forall>m. 0 \<le> m \<and> m < ?N \<and> ?c m \<le> budget \<longrightarrow> ?d m \<le> ?d b"
      "\<forall>m. 0 \<le> m \<and> m < b \<and> ?c m \<le> budget \<longrightarrow> ?d m < ?d b"
    using exhaustive_loop_best [of 0 ?N 0 armors budget]
    by auto
  have "b < ?N" using b(3) by auto
  then show ?thesis
    using run b unfolding build_candidate_subset_of_mask by auto
qed

lemma exhaustive_max_defense_empty: "exhaustive_max_defense [] budget = Inr []"
proof -
  have keep: "\<not> ((0::real) < snd (sum_armor_vector (build_candidate [] 0))
      \<and> real_of_int (fst (sum_armor_vector (build_candidate [] 0))) \<le> budget)"
    by (simp add: build_candidate_def sum_armor_vector_def)
  have lt: "(0::int) < 1"
    by simp
  have "exhaustive_loop [] budget 1 0 ([], 0) = ([], 0)"
    unfolding exhaustive_loop_keep [OF lt keep]
    by (simp add: exhaustive_loop_stop)
  then show ?thesis
    using double_to_int_small [of 0] by (simp add: exhaustive_max_defense_def)
qed

lemma positive_costs_empty:
  "\<forall>a \<in> set xs. 0 < cost a \<Longrightarrow> cost_sum xs \<le> 0 \<Longrightarrow> xs = []"
  using cost_sum_pos [of xs] by fastforce

lemma exhaustive_within_budget:
  assumes costs: "\<forall>a \<in> set armors. 0 < cost a"
    and total: "cost_sum armors \<le> INT_MAX"
    and budget: "0 \<le> budget"
    and ret: "exhaustive_max_defense armors budget = Inr s"
  shows "set s \<subseteq> set armors \<and> real_of_int (cost_sum s) \<le> budget"
proof (cases "length armors < 31")
  case True
  obtain m where m: "exhaustive_max_defense armors budget = Inr (subset_of_mask armors m)"
      "m = 0 \<or> real_of_int (fst (sum_armor_vector (subset_of_mask armors m))) \<le> budget"
    using exhaustive_max_defense_correct [OF True, of budget] by blast
  have s: "s = subset_of_mask armors m"
    using ret m(1) by simp
  have sub: "set s \<subseteq> set armors"
    unfolding s subset_of_mask_def by (rule set_nths_subset)
  have cost: "fst (sum_armor_vector (subset_of_mask armors m)) = cost_sum (subset_of_mask armors m)"
    using candidate_cost_exact [OF costs total, of m]
    by (simp add: build_candidate_subset_of_mask)
  show ?thesis
  proof (cases "m = 0")
    case True
    then show ?thesis using s budget sub by (simp add: subset_of_mask_0 cost_sum_def)
  next
    case False
    then show ?thesis using s m(2) cost sub by simp
  qed
next
  case False
  have "length armors < 64" using ret by (rule exhaustive_returns)
  then have "exhaustive_max_defense armors budget = Inr []"
    using False by (intro exhaustive_max_defense_large) auto
  then have "s = []" using ret by simp
  then show ?thesis using budget by (simp add: cost_sum_def)
qed

lemma exhaustive_defined:
  "length armors < 64 \<Longrightarrow> \<exists>s. exhaustive_max_defense armors budget = Inr s"
  by (simp add: exhaustive_max_defense_def)

section \<open>The solvers on concrete inputs\<close>

text \<open>The equations that evaluate the two solvers on a concrete input.\<close>

lemmas double_eval = double_add_def round_double_def binary_exponent_def round_even_def
  compute_bitlen Let_def

lemmas dp_eval = dynamic_max_defense_def build_table_def init_rows.simps init_row.simps
  fill_rows.simps fill_row.simps backtrack.simps vec_at_def table_get_def table_set_def
  max_double_def int_wrap_def eval_nat_numeral double_eval

lemmas ex_eval = exhaustive_max_defense_def exhaustive_loop.simps build_candidate_def
  sum_armor_vector_def int_wrap_def INT_MAX_def double_to_int_def double_eval

lemma scenario_table:
  "build_table [helmet, shield, boots] 5 =
     Inr [[0, 0, 0, 0, 0, 0], [0, 0, 0, 0, 4, 4], [0, 0, 0, 0, 4, 5], [0, 0, 0, 3, 4, 5]]"
  by (simp add: dp_eval helmet_def shield_def boots_def)

lemma scenario_dynamic: "dynamic_max_defense [helmet, shield, boots] 5 = Inr [shield]"
  by (simp add: dp_eval helmet_def shield_def boots_def)

lemma scenario_exhaustive: "exhaustive_max_defense [helmet, shield, boots] 5 = Inr [helmet, boots]"
  by (simp add: ex_eval helmet_def shield_def boots_def)

lemma ring_table: "build_table [ring] 1 = Inr [[0, 0], [0, 0]]"
  by (simp add: dp_eval ring_def)

lemma ring_dynamic: "dynamic_max_defense [ring] 1 = Inr []"
  by (simp add: dp_eval ring_def)

lemma ring_exhaustive: "exhaustive_max_defense [ring] 1 = Inr [ring]"
  by (simp add: ex_eval ring_def)

lemma crowns_exhaustive: "exhaustive_max_defense [crown, crown] 0 = Inr [crown, crown]"
  by (simp add: ex_eval crown_def)

lemma rings_31: "exhaustive_max_defense (replicate 31 ring) 31 = Inr []"
  by (rule exhaustive_max_defense_large) simp_all

lemma scenario_dynamic_4: "dynamic_max_defense [helmet, shield, boots] 4 = Inr [helmet]"
  by (simp add: dp_eval helmet_def shield_def boots_def)

lemma scenario_exhaustive_4: "exhaustive_max_defense [helmet, shield, boots] 4 = Inr [shield]"
  by (simp add: ex_eval helmet_def shield_def boots_def)

lemma scenario_dynamic_0: "dynamic_max_defense [helmet, shield, boots] 0 = Inr []"
  by (simp add: dp_eval helmet_def shield_def boots_def)

lemma scenario_exhaustive_0: "exhaustive_max_defense [helmet, shield, boots] 0 = Inr []"
  by (simp add: ex_eval helmet_def shield_def boots_def)

lemma plates_dynamic_6:
  "dynamic_max_defense [dragon_plate, gauntlet, greaves, titan_plate] 6 = Inr [titan_plate]"
  by (simp add: dp_eval dragon_plate_def gauntlet_def greaves_def titan_plate_def)

lemma plates_dynamic_7:
  "dynamic_max_defense [dragon_plate, gauntlet, greaves, titan_plate] 7 =
     Inr [greaves, gauntlet, dragon_plate]"
  by (simp add: dp_eval dragon_plate_def gauntlet_def greaves_def titan_plate_def)

lemma plates_sums:
  "snd (sum_armor_vector [titan_plate]) = 10000000000000008"
  "snd (sum_armor_vector [greaves, gauntlet, dragon_plate]) = 10000000000000006"
  by (simp_all add: sum_armor_vector_def double_eval dragon_plate_def gauntlet_def greaves_def titan_plate_def)

lemma scenario_sums:
  "snd (sum_armor_vector [helmet]) = 4" "snd (sum_armor_vector [shield]) = 5"
  "snd (sum_armor_vector [helmet, boots]) = 7" "snd (sum_armor_vector [ring]) = 1"
  "snd (sum_armor_vector [crown, crown]) = 2"
  by (simp_all add: sum_armor_vector_def double_eval helmet_def shield_def boots_def ring_def crown_def)

section \<open>Properties of the two solvers\<close>

lemma dynamic_returns:
  assumes "0 \<le> B" "B \<le> INT_MAX"
    and "\<forall>a \<in> set armors. 0 < cost a \<and> cost a \<le> INT_MAX"
    and "dynamic_max_defense armors B = Inr s"
  shows "B < INT_MAX \<and> set s \<subseteq> set armors \<and> cost_sum s \<le> B
         \<and> ((\<forall>a \<in> set armors. defense a \<in> \<int>) \<and> abs_defense_sum armors \<le> 2 ^ 53 \<longrightarrow>
              snd (sum_armor_vector s) = exact_value armors (length armors) B
              \<and> defense_sum s = exact_value armors (length armors) B)"
proof -
  have "B \<noteq> INT_MAX"
    using assms(4) dynamic_max_defense_overflow [of armors] by auto
  then have B: "B < INT_MAX" using assms(2) by simp
  show ?thesis
    using dynamic_max_defense_correct [OF assms(1) B assms(3)] assms(4) B by auto
qed

text \<open>
  Claim C4, as the code has it. For a catalog of positive \<^verbatim>\<open>int\<close> costs and a budget
  \<open>0 \<le> budget \<le> INT_MAX\<close>: every solution returned by \<^verbatim>\<open>dynamic_max_defense\<close> has a
  total cost of at most the budget; every solution returned by
  \<^verbatim>\<open>exhaustive_max_defense\<close> has a total cost of at most the budget provided the costs
  of the whole catalog sum to at most \<open>INT_MAX\<close>, so that no candidate's \<^verbatim>\<open>int\<close> sum
  wraps around. The dynamic solver returns a solution when \<open>budget < INT_MAX\<close>, the
  exhaustive solver when the catalog has fewer than 64 items.
\<close>

theorem solutions_within_budget:
  "\<forall>a \<in> set armors. 0 < cost a \<and> cost a \<le> INT_MAX \<Longrightarrow> 0 \<le> budget \<Longrightarrow> budget \<le> INT_MAX \<Longrightarrow>
   (\<forall>s. dynamic_max_defense armors budget = Inr s \<longrightarrow> cost_sum s \<le> budget)
   \<and> (cost_sum armors \<le> INT_MAX \<longrightarrow>
        (\<forall>s. exhaustive_max_defense armors (real_of_int budget) = Inr s \<longrightarrow> cost_sum s \<le> budget))
   \<and> (budget < INT_MAX \<longrightarrow> (\<exists>s. dynamic_max_defense armors budget = Inr s))
   \<and> (length armors < 64 \<longrightarrow> (\<exists>s. exhaustive_max_defense armors (real_of_int budget) = Inr s))"
proof -
  assume costs: "\<forall>a \<in> set armors. 0 < cost a \<and> cost a \<le> INT_MAX"
    and budget: "0 \<le> budget" "budget \<le> INT_MAX"
  have dp: "\<forall>s. dynamic_max_defense armors budget = Inr s \<longrightarrow> cost_sum s \<le> budget"
    using dynamic_returns [OF budget costs] by blast
  have pos: "\<forall>a \<in> set armors. 0 < cost a"
    using costs by blast
  have ex: "cost_sum armors \<le> INT_MAX \<longrightarrow>
        (\<forall>s. exhaustive_max_defense armors (real_of_int budget) = Inr s \<longrightarrow> cost_sum s \<le> budget)"
  proof (intro impI allI)
    fix s
    assume "cost_sum armors \<le> INT_MAX" and "exhaustive_max_defense armors (real_of_int budget) = Inr s"
    then have "real_of_int (cost_sum s) \<le> real_of_int budget"
      using exhaustive_within_budget [OF pos, of "real_of_int budget" s] budget(1) by simp
    then show "cost_sum s \<le> budget" by simp
  qed
  have dp_def: "budget < INT_MAX \<longrightarrow> (\<exists>s. dynamic_max_defense armors budget = Inr s)"
    using dynamic_max_defense_correct [OF budget(1) _ costs] by blast
  have ex_def: "length armors < 64 \<longrightarrow> (\<exists>s. exhaustive_max_defense armors (real_of_int budget) = Inr s)"
    using exhaustive_defined by blast
  from dp ex dp_def ex_def show ?thesis
    by blast
qed

theorem solutions_within_budget_witness:
  "cost_sum [helmet, shield, boots] \<le> INT_MAX \<and> (0::int) \<le> 5 \<and> 5 < INT_MAX
   \<and> length [helmet, shield, boots] < 64
   \<and> dynamic_max_defense [helmet, shield, boots] 5 = Inr [shield] \<and> cost_sum [shield] \<le> 5
   \<and> exhaustive_max_defense [helmet, shield, boots] 5 = Inr [helmet, boots]
   \<and> cost_sum [helmet, boots] \<le> 5"
  using solutions_within_budget [of "[helmet, shield, boots]" 5] scenario_dynamic scenario_exhaustive
  by (simp add: INT_MAX_def cost_sum_def helmet_def shield_def boots_def)

text \<open>
  Claim C4 as stated fails for the exhaustive solver: two items of cost \<open>2^30\<close> each and
  the budget 0. The \<^verbatim>\<open>int\<close> sum of both costs wraps around to \<open>-2^31\<close>, which passes the
  test \<^verbatim>\<open>budget <= total_cost\<close>, and the solution returned costs \<open>2^31\<close>.
\<close>

theorem solutions_within_budget_counterexample:
  "0 < cost crown \<and> length [crown, crown] < 64
   \<and> exhaustive_max_defense [crown, crown] (real_of_int 0) = Inr [crown, crown]
   \<and> \<not> cost_sum [crown, crown] \<le> 0"
  using crowns_exhaustive by (simp add: cost_sum_def crown_def)

text \<open>
  Claim C7, as the code has it. For a catalog of positive \<^verbatim>\<open>int\<close> costs and budgets
  \<open>0 \<le> budget1 \<le> budget2 \<le> INT_MAX\<close>: the solutions returned by
  \<^verbatim>\<open>exhaustive_max_defense\<close> at the two budgets have total defenses, as
  \<^verbatim>\<open>sum_armor_vector\<close> sums them, in the same order; so have the solutions returned by
  \<^verbatim>\<open>dynamic_max_defense\<close>, and their exact defense sums too, provided every defense
  value is an integer and the absolute defense values of the catalog sum to at most
  \<open>2^53\<close>, so that no addition of doubles rounds. The dynamic solver returns both
  solutions when \<open>budget2 < INT_MAX\<close>, the exhaustive solver when the catalog has fewer
  than 64 items.
\<close>

theorem budget_monotone:
  "\<forall>a \<in> set armors. 0 < cost a \<and> cost a \<le> INT_MAX \<Longrightarrow>
   0 \<le> budget1 \<Longrightarrow> budget1 \<le> budget2 \<Longrightarrow> budget2 \<le> INT_MAX \<Longrightarrow>
   ((\<forall>a \<in> set armors. defense a \<in> \<int>) \<and> abs_defense_sum armors \<le> 2 ^ 53 \<longrightarrow>
      (\<forall>s1 s2. dynamic_max_defense armors budget1 = Inr s1
           \<and> dynamic_max_defense armors budget2 = Inr s2 \<longrightarrow>
         snd (sum_armor_vector s1) \<le> snd (sum_armor_vector s2)
         \<and> defense_sum s1 \<le> defense_sum s2))
   \<and> (\<forall>s1 s2. exhaustive_max_defense armors (real_of_int budget1) = Inr s1
          \<and> exhaustive_max_defense armors (real_of_int budget2) = Inr s2 \<longrightarrow>
       snd (sum_armor_vector s1) \<le> snd (sum_armor_vector s2))
   \<and> (budget2 < INT_MAX \<longrightarrow>
        (\<exists>s1 s2. dynamic_max_defense armors budget1 = Inr s1 \<and> dynamic_max_defense armors budget2 = Inr s2))
   \<and> (length armors < 64 \<longrightarrow>
        (\<exists>s1 s2. exhaustive_max_defense armors (real_of_int budget1) = Inr s1
           \<and> exhaustive_max_defense armors (real_of_int budget2) = Inr s2))"
proof -
  assume costs: "\<forall>a \<in> set armors. 0 < cost a \<and> cost a \<le> INT_MAX"
    and b: "0 \<le> budget1" "budget1 \<le> budget2" "budget2 \<le> INT_MAX"
  have b1: "budget1 \<le> INT_MAX" and b2: "0 \<le> budget2" using b by auto
  let ?H = "(\<forall>a \<in> set armors. defense a \<in> \<int>) \<and> abs_defense_sum armors \<le> 2 ^ 53"
  have dp: "snd (sum_armor_vector s1) \<le> snd (sum_armor_vector s2) \<and> defense_sum s1 \<le> defense_sum s2"
    if H: ?H
      and ret: "dynamic_max_defense armors budget1 = Inr s1 \<and> dynamic_max_defense armors budget2 = Inr s2"
    for s1 s2
  proof -
    have 1: "snd (sum_armor_vector s1) = exact_value armors (length armors) budget1"
        "defense_sum s1 = exact_value armors (length armors) budget1"
      using dynamic_returns [OF b(1) b1 costs, of s1] ret H by blast+
    have 2: "snd (sum_armor_vector s2) = exact_value armors (length armors) budget2"
        "defense_sum s2 = exact_value armors (length armors) budget2"
      using dynamic_returns [OF b2 b(3) costs, of s2] ret H by blast+
    show ?thesis
      unfolding 1 2 using exact_value_mono_j [OF b(2)] by simp
  qed
  have ex: "snd (sum_armor_vector s1) \<le> snd (sum_armor_vector s2)"
    if "exhaustive_max_defense armors (real_of_int budget1) = Inr s1
          \<and> exhaustive_max_defense armors (real_of_int budget2) = Inr s2" for s1 s2
  proof -
    let ?run = "\<lambda>budget. exhaustive_loop armors (real_of_int budget)
        (double_to_int (2 ^ length armors)) 0 ([], 0)"
    have s: "s1 = fst (?run budget1)" "s2 = fst (?run budget2)"
      using that exhaustive_returns(2) by blast+
    have d: "snd (?run budget) = snd (sum_armor_vector (fst (?run budget)))" for budget
      by (rule exhaustive_loop_defense) (simp add: sum_armor_vector_def)
    have "snd (?run budget1) \<le> snd (?run budget2)"
      by (rule exhaustive_loop_mono) (use b(2) in simp_all)
    then show ?thesis
      using s d by simp
  qed
  have dp_def: "\<exists>s1 s2. dynamic_max_defense armors budget1 = Inr s1 \<and> dynamic_max_defense armors budget2 = Inr s2"
    if "budget2 < INT_MAX"
  proof -
    have "budget1 < INT_MAX" using that b(2) by simp
    then show ?thesis
      using dynamic_max_defense_correct [OF b(1) _ costs] dynamic_max_defense_correct [OF b2 that costs]
      by blast
  qed
  have ex_def: "\<exists>s1 s2. exhaustive_max_defense armors (real_of_int budget1) = Inr s1
           \<and> exhaustive_max_defense armors (real_of_int budget2) = Inr s2"
    if "length armors < 64"
    using exhaustive_defined [OF that] by blast
  from dp ex dp_def ex_def show ?thesis
    by blast
qed

theorem budget_monotone_witness:
  "(0::int) \<le> 4 \<and> (4::int) \<le> 5 \<and> 5 < INT_MAX \<and> length [helmet, shield, boots] < 64
   \<and> defense helmet \<in> \<int> \<and> defense shield \<in> \<int> \<and> defense boots \<in> \<int>
   \<and> abs_defense_sum [helmet, shield, boots] \<le> 2 ^ 53
   \<and> dynamic_max_defense [helmet, shield, boots] 4 = Inr [helmet]
   \<and> dynamic_max_defense [helmet, shield, boots] 5 = Inr [shield]
   \<and> snd (sum_armor_vector [helmet]) \<le> snd (sum_armor_vector [shield])
   \<and> exhaustive_max_defense [helmet, shield, boots] 4 = Inr [shield]
   \<and> exhaustive_max_defense [helmet, shield, boots] 5 = Inr [helmet, boots]
   \<and> snd (sum_armor_vector [shield]) \<le> snd (sum_armor_vector [helmet, boots])"
  using budget_monotone [of "[helmet, shield, boots]" 4 5]
    scenario_dynamic scenario_exhaustive scenario_dynamic_4 scenario_exhaustive_4 scenario_sums
  by (simp add: INT_MAX_def abs_defense_sum_def helmet_def shield_def boots_def)

text \<open>
  Claim C7 as stated fails for the dynamic solver, whose table holds rounded sums. With
  the items of cost 2 and defense \<open>10^16\<close>, cost 2 and defense 3, cost 2 and defense 3, cost 5
  and defense \<open>10^16 + 8\<close>, the sum \<open>10^16 + 3\<close> of the table rounds to \<open>10^16 + 4\<close> and
  \<open>10^16 + 4 + 3\<close> to \<open>10^16 + 8\<close>: at the budget 6 the solution is the last item, of total
  defense \<open>10^16 + 8\<close>, and at the budget 7 it is the first three items, of total defense
  \<open>10^16 + 6\<close>.
\<close>

theorem budget_monotone_counterexample:
  "0 < cost dragon_plate \<and> 0 < cost gauntlet \<and> 0 < cost greaves \<and> 0 < cost titan_plate
   \<and> (0::int) \<le> 6 \<and> (6::int) \<le> 7
   \<and> dynamic_max_defense [dragon_plate, gauntlet, greaves, titan_plate] 6 = Inr [titan_plate]
   \<and> dynamic_max_defense [dragon_plate, gauntlet, greaves, titan_plate] 7 =
       Inr [greaves, gauntlet, dragon_plate]
   \<and> snd (sum_armor_vector [titan_plate]) = 10000000000000008
   \<and> snd (sum_armor_vector [greaves, gauntlet, dragon_plate]) = 10000000000000006
   \<and> \<not> snd (sum_armor_vector [titan_plate]) \<le> snd (sum_armor_vector [greaves, gauntlet, dragon_plate])
   \<and> \<not> defense_sum [titan_plate] \<le> defense_sum [greaves, gauntlet, dragon_plate]"
  using plates_dynamic_6 plates_dynamic_7 plates_sums
  by (simp add: defense_sum_def dragon_plate_def gauntlet_def greaves_def titan_plate_def)

text \<open>
  Claim C8 on 31 items of cost 1 and defense 1 with the budget 31: \<^verbatim>\<open>pow(2, 31)\<close> does not
  fit into the \<^verbatim>\<open>int\<close> \<open>subsetAmt\<close>, the loop over the masks does not run and the empty
  vector is returned, although the subset of mask 1 is feasible and has a greater total
  defense.
\<close>

theorem exhaustive_31_items:
  "length (replicate 31 ring) < 64
   \<and> exhaustive_max_defense (replicate 31 ring) 31 = Inr []
   \<and> subset_of_mask (replicate 31 ring) 1 = [ring]
   \<and> real_of_int (fst (sum_armor_vector [ring])) \<le> 31
   \<and> snd (sum_armor_vector []) < snd (sum_armor_vector [ring])"
proof -
  have "subset_of_mask (replicate 31 ring) 1 = [ring]"
    unfolding build_candidate_subset_of_mask [symmetric]
    by (simp add: build_candidate_def eval_nat_numeral)
  then show ?thesis
    using rings_31 by (simp add: sum_armor_vector_def double_eval int_wrap_def ring_def)
qed

text \<open>
  Claim C9, as the code has it. For a catalog of positive \<^verbatim>\<open>int\<close> costs, the budget 0
  makes \<^verbatim>\<open>dynamic_max_defense\<close> return the empty solution, and
  \<^verbatim>\<open>exhaustive_max_defense\<close> too when the catalog has fewer than 64 items, as the solver
  asserts, and its costs sum to at most \<open>INT_MAX\<close>; for the empty catalog and a budget
  \<open>0 \<le> budget < INT_MAX\<close> both solvers return the empty solution, whose total defense
  is 0.
\<close>

theorem degenerate_inputs:
  "\<forall>a \<in> set armors. 0 < cost a \<and> cost a \<le> INT_MAX \<Longrightarrow> 0 \<le> budget \<Longrightarrow> budget < INT_MAX \<Longrightarrow>
   dynamic_max_defense armors 0 = Inr []
   \<and> (length armors < 64 \<and> cost_sum armors \<le> INT_MAX \<longrightarrow> exhaustive_max_defense armors 0 = Inr [])
   \<and> dynamic_max_defense [] budget = Inr []
   \<and> exhaustive_max_defense [] (real_of_int budget) = Inr []
   \<and> snd (sum_armor_vector []) = 0"
proof -
  assume costs: "\<forall>a \<in> set armors. 0 < cost a \<and> cost a \<le> INT_MAX"
    and budget: "0 \<le> budget" "budget < INT_MAX"
  have pos: "\<forall>a \<in> set armors. 0 < cost a"
    using costs by blast
  have zero: "(0::int) \<le> 0" "(0::int) < INT_MAX"
    by (simp_all add: INT_MAX_def)
  obtain choice where c: "dynamic_max_defense armors 0 = Inr choice" "set choice \<subseteq> set armors"
      "cost_sum choice \<le> 0"
    using dynamic_max_defense_correct [OF zero costs] by blast
  have "choice = []"
    using c(2,3) pos by (intro positive_costs_empty) auto
  then have dp0: "dynamic_max_defense armors 0 = Inr []"
    using c(1) by simp
  have ex0: "exhaustive_max_defense armors 0 = Inr []"
    if small: "length armors < 64 \<and> cost_sum armors \<le> INT_MAX"
  proof -
    obtain s where s: "exhaustive_max_defense armors 0 = Inr s"
      using exhaustive_defined small by blast
    have "set s \<subseteq> set armors \<and> real_of_int (cost_sum s) \<le> 0"
      using exhaustive_within_budget [OF pos _ _ s] small by simp
    then have "s = []"
      using pos by (intro positive_costs_empty) auto
    then show ?thesis using s by simp
  qed
  have dp_empty: "dynamic_max_defense [] budget = Inr []"
    using dynamic_max_defense_correct [OF budget, of "[]"] by simp
  have "snd (sum_armor_vector []) = 0"
    by (simp add: sum_armor_vector_def)
  then show ?thesis
    using dp0 ex0 dp_empty exhaustive_max_defense_empty by blast
qed

theorem degenerate_inputs_witness:
  "(0::int) \<le> 5 \<and> 5 < INT_MAX
   \<and> length [helmet, shield, boots] < 64 \<and> cost_sum [helmet, shield, boots] \<le> INT_MAX
   \<and> dynamic_max_defense [helmet, shield, boots] 0 = Inr []
   \<and> exhaustive_max_defense [helmet, shield, boots] 0 = Inr []
   \<and> dynamic_max_defense [] 5 = Inr []
   \<and> exhaustive_max_defense [] 5 = Inr []
   \<and> snd (sum_armor_vector []) = 0"
  using degenerate_inputs [of "[helmet, shield, boots]" 5] scenario_dynamic_0 scenario_exhaustive_0
  by (simp add: INT_MAX_def cost_sum_def helmet_def shield_def boots_def)

text \<open>
  Claim C9 as stated fails: with two items of cost \<open>2^30\<close> and the budget 0 the \<^verbatim>\<open>int\<close> sum
  of the costs wraps around and the exhaustive solver returns both items, of total
  defense 2; and with the empty catalog and the budget \<open>INT_MAX\<close> the dynamic solver
  throws \<^verbatim>\<open>std::length_error\<close>.
\<close>

theorem degenerate_inputs_counterexample:
  "0 < cost crown \<and> length [crown, crown] < 64
   \<and> exhaustive_max_defense [crown, crown] 0 = Inr [crown, crown]
   \<and> snd (sum_armor_vector [crown, crown]) = 2
   \<and> (0::int) \<le> INT_MAX \<and> dynamic_max_defense [] INT_MAX = Inl LengthError"
  using crowns_exhaustive dynamic_max_defense_overflow [of "[]"] scenario_sums
  by (simp add: crown_def INT_MAX_def)

text \<open>
  Claim C1 on one item of cost 1 and defense 1 with the budget 1: the dynamic solver returns
  the empty solution, of total defense 0, and the exhaustive solver returns the item, of
  total defense 1. The test \<^verbatim>\<open>j - cost > 0\<close> of the dynamic solver excludes an item whose
  cost equals the remaining budget.
\<close>

theorem cross_validation_fails:
  "dynamic_max_defense [ring] 1 = Inr [] \<and> exhaustive_max_defense [ring] 1 = Inr [ring]
   \<and> defense_sum [] = 0 \<and> defense_sum [ring] = 1"
  using ring_dynamic ring_exhaustive by (simp add: defense_sum_def ring_def)

text \<open>
  Claim C2 on one item of cost 1 and defense 1 with the budget 1: the cost does not exceed
  \<open>j = 1\<close>, so the recurrence of the claim gives \<open>T[1][1] = max (T[0][1], T[0][0] + 1) = 1\<close>,
  and the table of the code holds 0 there.
\<close>

theorem table_recurrence_fails:
  "build_table [ring] 1 = Inr [[0, 0], [0, 0]] \<and> cost ring \<le> 1
   \<and> max_double 0 (0 + defense ring) = 1"
  using ring_table by (simp add: max_double_def ring_def)

text \<open>
  Claim C3, the scenario of the specification with the budget 5: the exhaustive solver
  returns helmet and boots, of total defense 7 and total cost 5; the dynamic solver
  returns the shield alone, of total defense 5.
\<close>

theorem scenario_results:
  "dynamic_max_defense [helmet, shield, boots] 5 = Inr [shield] \<and> defense_sum [shield] = 5
   \<and> exhaustive_max_defense [helmet, shield, boots] 5 = Inr [helmet, boots]
   \<and> defense_sum [helmet, boots] = 7 \<and> cost_sum [helmet, boots] = 5"
  using scenario_dynamic scenario_exhaustive
  by (simp add: defense_sum_def cost_sum_def helmet_def shield_def boots_def)

end
